theory Spec2Isabelle
  imports Main "HOL-Library.Word" "HOL-Library.Multiset"
begin

section \<open>Round Robin CPU scheduling: the data model\<close>

text \<open>
  The source file is \<^verbatim>\<open>cpu_scheduling_algorithms/round_robin_scheduling.cpp\<close>.
  Every integer of the program is a \<^verbatim>\<open>uint32_t\<close>: a 32-bit word whose addition and
  subtraction wrap around.
\<close>

type_synonym uint32_t = "32 word"

text \<open>
  \<^verbatim>\<open>struct Process { uint32_t id; uint32_t arrival_time; uint32_t burst_time; }\<close>.
  The field \<^verbatim>\<open>id\<close> is called \<open>id_p\<close> here, since \<open>id\<close> is the identity function of HOL.
\<close>

record Process =
  id_p :: uint32_t
  arrival_time :: uint32_t
  burst_time :: uint32_t

text \<open>\<^verbatim>\<open>struct ProcessResult : public Process\<close> with its three derived fields.\<close>

record ProcessResult = Process +
  completion_time :: uint32_t
  turn_around_time :: uint32_t
  waiting_time :: uint32_t

text \<open>
  The constructor \<^verbatim>\<open>ProcessResult(const Process& process, uint32_t completion_time)\<close>:
  it copies the process and derives the two other times by unsigned subtraction.
\<close>

definition mk_ProcessResult :: "Process \<Rightarrow> uint32_t \<Rightarrow> ProcessResult" where
  "mk_ProcessResult process c =
     \<lparr>id_p = id_p process, arrival_time = arrival_time process,
      burst_time = burst_time process,
      completion_time = c,
      turn_around_time = c - arrival_time process,
      waiting_time = (c - arrival_time process) - burst_time process\<rparr>"

text \<open>\<^verbatim>\<open>using BTLeft = uint32_t\<close>: the remaining burst time of a queued process.\<close>

type_synonym BTLeft = uint32_t

text \<open>\<^verbatim>\<open>CompareAT\<close>: the comparator on arrival times; it takes any \<^verbatim>\<open>Process&\<close>,
  so also a \<^verbatim>\<open>ProcessResult\<close>.\<close>

definition CompareAT :: "'a Process_scheme \<Rightarrow> 'b Process_scheme \<Rightarrow> bool" where
  "CompareAT p1 p2 \<longleftrightarrow> arrival_time p1 < arrival_time p2"

section \<open>The scheduler\<close>

text \<open>
  \<^verbatim>\<open>CheckArriveProcess\<close> walks over \<^verbatim>\<open>processes\<close> in order. A process that has not
  arrived yet, or whose id is already in the set, is skipped; every other one is pushed
  to the back of the queue with its full burst time and its id is inserted into the set.
  The two containers are passed by reference: the model returns them updated.
\<close>

fun CheckArriveProcess ::
  "Process list \<Rightarrow> uint32_t set \<Rightarrow> (Process \<times> BTLeft) list \<Rightarrow> uint32_t
     \<Rightarrow> uint32_t set \<times> (Process \<times> BTLeft) list" where
  "CheckArriveProcess [] arrived_process schedule time_elapsed = (arrived_process, schedule)"
| "CheckArriveProcess (p # processes) arrived_process schedule time_elapsed =
     (if arrival_time p > time_elapsed \<or> id_p p \<in> arrived_process
      then CheckArriveProcess processes arrived_process schedule time_elapsed
      else CheckArriveProcess processes (insert (id_p p) arrived_process)
             (schedule @ [(p, burst_time p)]) time_elapsed)"

text \<open>
  \<^verbatim>\<open>std::min_element(first, last, CompareAT)\<close>: the first element that no other element
  is smaller than. On an empty range it returns \<^verbatim>\<open>last\<close>, which is \<open>None\<close> here.
\<close>

fun min_element_from :: "Process \<Rightarrow> Process list \<Rightarrow> Process" where
  "min_element_from smallest [] = smallest"
| "min_element_from smallest (p # ps) =
     min_element_from (if CompareAT p smallest then p else smallest) ps"

fun min_element :: "Process list \<Rightarrow> Process option" where
  "min_element [] = None"
| "min_element (p # ps) = Some (min_element_from p ps)"

text \<open>The local variables of \<^verbatim>\<open>RRExecute\<close> that the main loop reads and writes.\<close>

record rr_state =
  schedule :: "(Process \<times> BTLeft) list"
  arrived_processes :: "uint32_t set"
  time_elapsed :: uint32_t
  results :: "ProcessResult list"

text \<open>
  One pass through the body of the \<^verbatim>\<open>while\<close> loop, for the pair \<open>current\<close> taken from
  the front of the queue; \<open>s\<close> is the state after \<^verbatim>\<open>schedule.pop()\<close>.
\<close>

definition rr_body :: "Process list \<Rightarrow> uint32_t \<Rightarrow> Process \<times> BTLeft \<Rightarrow> rr_state \<Rightarrow> rr_state" where
  "rr_body processes time_slice current s =
     (let elapsed = (if snd current > time_slice then time_slice else snd current);
          left = snd current - elapsed;
          t = time_elapsed s + elapsed;
          (arrived, sched) = CheckArriveProcess processes (arrived_processes s) (schedule s) t
      in if left > 0
         then s\<lparr>schedule := sched @ [(fst current, left)], arrived_processes := arrived,
                time_elapsed := t\<rparr>
         else s\<lparr>schedule := sched, arrived_processes := arrived, time_elapsed := t,
                results := results s @ [mk_ProcessResult (fst current) t]\<rparr>)"

text \<open>
  The \<^verbatim>\<open>while (!schedule.empty())\<close> loop. Nothing in the source bounds the number of
  passes, so the loop is a partial function: \<open>None\<close> means that it never ends.
\<close>

partial_function (option) rr_loop :: "Process list \<Rightarrow> uint32_t \<Rightarrow> rr_state \<Rightarrow> ProcessResult list option" where
  "rr_loop processes time_slice s =
     (case schedule s of
        [] \<Rightarrow> Some (results s)
      | current # rest \<Rightarrow>
          rr_loop processes time_slice (rr_body processes time_slice current (s\<lparr>schedule := rest\<rparr>)))"

text \<open>
  What a call can end in besides a returned vector. \<open>InvalidArgument\<close> is the error kind
  that the specification names; \<open>UndefinedBehaviour\<close> is the dereference of the end
  iterator that \<^verbatim>\<open>std::min_element\<close> returns for an empty vector.
\<close>

datatype failure = InvalidArgument | UndefinedBehaviour

text \<open>The state at the head of the loop, the first time: the clock is the smallest
  arrival time, and \<^verbatim>\<open>CheckArriveProcess\<close> has run once.\<close>

definition rr_init :: "Process list \<Rightarrow> uint32_t \<Rightarrow> rr_state" where
  "rr_init processes t0 =
     (let (arrived, sched) = CheckArriveProcess processes {} [] t0
      in \<lparr>schedule = sched, arrived_processes = arrived, time_elapsed = t0, results = []\<rparr>)"

text \<open>
  \<^verbatim>\<open>RRExecute\<close>. The outer \<open>option\<close> is \<open>None\<close> when the call never returns.
\<close>

definition RRExecute :: "Process list \<Rightarrow> uint32_t \<Rightarrow> (failure + ProcessResult list) option" where
  "RRExecute processes time_slice =
     (case min_element processes of
        None \<Rightarrow> Some (Inl UndefinedBehaviour)
      | Some m \<Rightarrow>
          map_option Inr (rr_loop processes time_slice (rr_init processes (arrival_time m))))"

section \<open>The table printer\<close>

text \<open>
  \<^verbatim>\<open>std::sort(first, last, cmp)\<close> is a function of the standard library. It is a
  parameter \<open>std_sort\<close> of the definitions that call it, and what the C++ standard
  promises of it is a hypothesis of the theorems about them: the range \<open>ys\<close> that it
  leaves is a rearrangement of the range \<open>xs\<close> that it was given, and it is sorted with
  respect to \<open>cmp\<close>, which means that \<open>cmp\<close> is false of every element and any
  element before it. The order of elements that \<open>cmp\<close> does not tell apart is left
  open.
\<close>

definition std_sort_post :: "('a \<Rightarrow> 'a \<Rightarrow> bool) \<Rightarrow> 'a list \<Rightarrow> 'a list \<Rightarrow> bool" where
  "std_sort_post cmp xs ys \<longleftrightarrow>
     mset ys = mset xs \<and> sorted_wrt (\<lambda>a b. \<not> cmp b a) ys"

text \<open>
  \<^verbatim>\<open>std::to_string\<close> on a \<^verbatim>\<open>uint32_t\<close>: the decimal digits of the value, without
  leading zeros.
\<close>

definition digit :: "nat \<Rightarrow> char" where
  "digit n = ''0123456789'' ! n"

function decimal :: "nat \<Rightarrow> string" where
  "decimal n = (if n < 10 then [digit n] else decimal (n div 10) @ [digit (n mod 10)])"
  by pat_completeness auto
termination
  by (relation "measure (\<lambda>n. n)") auto

declare decimal.simps [simp del]

definition to_string :: "uint32_t \<Rightarrow> string" where
  "to_string w = decimal (unat w)"

text \<open>
  The output stream: the text written to it so far, and the part of its format state
  that the printer sets or reads, which is the field width, the adjustment and the fill
  character.
\<close>

datatype adjustfield = adjust_left | adjust_right | adjust_internal

record ostream =
  os_text :: string
  os_width :: nat
  os_adjust :: adjustfield
  os_fill :: char

text \<open>
  The manipulators \<^verbatim>\<open>std::setw\<close> and \<^verbatim>\<open>std::left\<close>, and the insertion of a string:
  a string shorter than the field width is padded with the fill character, after the
  string when the adjustment is left and before it otherwise; a longer string is
  written whole; the width is reset to 0. \<^verbatim>\<open>std::endl\<close> writes a line feed, whatever
  the width is.
\<close>

definition newline :: char where
  "newline = CHR 0x0A"

definition setw :: "nat \<Rightarrow> ostream \<Rightarrow> ostream" where
  "setw n os = os\<lparr>os_width := n\<rparr>"

definition std_left :: "ostream \<Rightarrow> ostream" where
  "std_left os = os\<lparr>os_adjust := adjust_left\<rparr>"

definition insert_string :: "ostream \<Rightarrow> string \<Rightarrow> ostream" where
  "insert_string os str =
     (let pad = replicate (os_width os - length str) (os_fill os)
      in os\<lparr>os_text := os_text os @ (if os_adjust os = adjust_left then str @ pad else pad @ str),
            os_width := 0\<rparr>)"

definition endl :: "ostream \<Rightarrow> ostream" where
  "endl os = os\<lparr>os_text := os_text os @ [newline]\<rparr>"

text \<open>
  The lambda \<^verbatim>\<open>PrintCell\<close>: \<^verbatim>\<open>ostream << std::setw(17) << std::left << str\<close>.
\<close>

definition PrintCell :: "ostream \<Rightarrow> string \<Rightarrow> ostream" where
  "PrintCell os str = insert_string (std_left (setw 17 os)) str"

text \<open>
  \<^verbatim>\<open>operator<<\<close> for a vector of results. It copies the vector, sorts the copy with
  \<^verbatim>\<open>CompareAT\<close>, prints the six headings and \<^verbatim>\<open>std::endl\<close>, then six cells and
  \<^verbatim>\<open>"\n"\<close> for each element of the copy. Both arguments are references: the model
  returns the stream and the vector as the call leaves them.
\<close>

definition operator_ltlt ::
  "((ProcessResult \<Rightarrow> ProcessResult \<Rightarrow> bool) \<Rightarrow> ProcessResult list \<Rightarrow> ProcessResult list)
     \<Rightarrow> ostream \<Rightarrow> ProcessResult list \<Rightarrow> ostream \<times> ProcessResult list" where
  "operator_ltlt std_sort os results_v =
     (let sorted_v = results_v;
          sorted_v = std_sort CompareAT sorted_v;
          os = PrintCell os ''Process ID'';
          os = PrintCell os ''Arrival Time'';
          os = PrintCell os ''Burst Time'';
          os = PrintCell os ''Completion Time'';
          os = PrintCell os ''Turnaround Time'';
          os = PrintCell os ''Waiting Time'';
          os = endl os;
          os = fold (\<lambda>p os.
             (let os = PrintCell os (to_string (id_p p));
                  os = PrintCell os (to_string (arrival_time p));
                  os = PrintCell os (to_string (burst_time p));
                  os = PrintCell os (to_string (completion_time p));
                  os = PrintCell os (to_string (turn_around_time p));
                  os = PrintCell os (to_string (waiting_time p))
              in insert_string os [newline])) sorted_v os
      in (os, results_v))"

section \<open>The self-test\<close>

text \<open>The fixture of \<^verbatim>\<open>Test\<close>: five processes, given as \<^verbatim>\<open>{id, arrival_time, burst_time}\<close>.\<close>

definition Test_processes :: "Process list" where
  "Test_processes =
     [\<lparr>id_p = 0, arrival_time = 70, burst_time = 3\<rparr>,
      \<lparr>id_p = 1, arrival_time = 9, burst_time = 2\<rparr>,
      \<lparr>id_p = 2, arrival_time = 3, burst_time = 39\<rparr>,
      \<lparr>id_p = 3, arrival_time = 5, burst_time = 29\<rparr>,
      \<lparr>id_p = 4, arrival_time = 30, burst_time = 90\<rparr>]"

definition kTimeSlice :: uint32_t where
  "kTimeSlice = 3"

definition correct_completion_times :: "uint32_t list" where
  "correct_completion_times = [80, 14, 100, 82, 166]"

text \<open>
  The condition of the \<^verbatim>\<open>assert\<close> in \<^verbatim>\<open>Test\<close>: both vectors are sorted by
  \<^verbatim>\<open>std::sort\<close> with \<^verbatim>\<open>CompareAT\<close> and compared field by field. \<open>None\<close> stands for a
  call of \<^verbatim>\<open>RRExecute\<close> that did not return a vector.
\<close>

definition Test_assertion ::
  "((ProcessResult \<Rightarrow> ProcessResult \<Rightarrow> bool) \<Rightarrow> ProcessResult list \<Rightarrow> ProcessResult list)
     \<Rightarrow> bool option" where
  "Test_assertion std_sort =
     (case RRExecute Test_processes kTimeSlice of
        Some (Inr res) \<Rightarrow>
          Some (std_sort CompareAT res =
                std_sort CompareAT (map2 mk_ProcessResult Test_processes correct_completion_times))
      | _ \<Rightarrow> None)"

section \<open>The vocabulary of the properties\<close>

text \<open>
  The preconditions that the specification puts on a call: a non-empty list, a time
  slice of at least 1, burst times of at least 1, and pairwise distinct ids.
\<close>

definition preconditions :: "Process list \<Rightarrow> uint32_t \<Rightarrow> bool" where
  "preconditions ps ts \<longleftrightarrow>
     ps \<noteq> [] \<and> 1 \<le> ts \<and> list_all (\<lambda>p. 1 \<le> burst_time p) ps \<and> distinct (map id_p ps)"

text \<open>
  The sum of all burst times, as a natural number, and the condition that the clock
  cannot wrap around: the earliest arrival time plus all burst times fits in 32 bits.
\<close>

definition total_burst :: "Process list \<Rightarrow> nat" where
  "total_burst ps = sum_list (map (\<lambda>p. unat (burst_time p)) ps)"

definition no_overflow :: "Process list \<Rightarrow> bool" where
  "no_overflow ps \<longleftrightarrow>
     (case min_element ps of None \<Rightarrow> True
      | Some m \<Rightarrow> unat (arrival_time m) + total_burst ps < 2 ^ 32)"

text \<open>
  The time for which the loop body runs the process at the front: the value of the
  conditional expression that initialises \<^verbatim>\<open>elapsed\<close>.
\<close>

definition quantum :: "uint32_t \<Rightarrow> BTLeft \<Rightarrow> uint32_t" where
  "quantum time_slice left = (if left > time_slice then time_slice else left)"

text \<open>
  The processes that one call of \<^verbatim>\<open>CheckArriveProcess\<close> pushes, in the order in which
  it pushes them.
\<close>

fun arrivals :: "Process list \<Rightarrow> uint32_t set \<Rightarrow> uint32_t \<Rightarrow> Process list" where
  "arrivals [] arrived t = []"
| "arrivals (p # ps) arrived t =
     (if arrival_time p > t \<or> id_p p \<in> arrived then arrivals ps arrived t
      else p # arrivals ps (insert (id_p p) arrived) t)"

text \<open>
  The work that is left: the remaining burst times in the queue, and the burst times of
  the processes whose id is not in the set of arrived ids yet.
\<close>

definition pending :: "Process list \<Rightarrow> uint32_t set \<Rightarrow> Process list" where
  "pending ps arrived = filter (\<lambda>p. id_p p \<notin> arrived) ps"

definition queue_left :: "(Process \<times> BTLeft) list \<Rightarrow> nat" where
  "queue_left q = sum_list (map (\<lambda>c. unat (snd c)) q)"

definition work_left :: "Process list \<Rightarrow> rr_state \<Rightarrow> nat" where
  "work_left ps s = queue_left (schedule s) + total_burst (pending ps (arrived_processes s))"

text \<open>
  The states at the head of the loop that a run reaches from the state \<open>s0\<close>: one
  pass pops the front of a non-empty queue and runs the body on it.
\<close>

inductive rr_reach :: "Process list \<Rightarrow> uint32_t \<Rightarrow> rr_state \<Rightarrow> rr_state \<Rightarrow> bool"
  for processes :: "Process list" and time_slice :: uint32_t and s0 :: rr_state where
  start: "rr_reach processes time_slice s0 s0"
| pass: "rr_reach processes time_slice s0 s \<Longrightarrow> schedule s = current # rest \<Longrightarrow>
         rr_reach processes time_slice s0
           (rr_body processes time_slice current (s\<lparr>schedule := rest\<rparr>))"

text \<open>
  The table that the specification describes: a line is its cells, each followed by
  the padding character \<open>c\<close> up to 17 characters, and a line feed.
\<close>

definition table_header :: "string list" where
  "table_header = [''Process ID'', ''Arrival Time'', ''Burst Time'', ''Completion Time'',
                   ''Turnaround Time'', ''Waiting Time'']"

definition table_row :: "ProcessResult \<Rightarrow> string list" where
  "table_row p = [to_string (id_p p), to_string (arrival_time p), to_string (burst_time p),
                  to_string (completion_time p), to_string (turn_around_time p),
                  to_string (waiting_time p)]"

definition table_line :: "char \<Rightarrow> string list \<Rightarrow> string" where
  "table_line c cells = concat (map (\<lambda>str. str @ replicate (17 - length str) c) cells) @ [newline]"

text \<open>
  Invariants of the loop. Every queued process has burst time left. The clock plus the
  work left stays below a bound \<open>B\<close>; a queued process cannot finish before its arrival
  time plus its burst time; every result has such a completion time, not later than the
  clock, and the results are in the order of their completion times. The ids in the
  queue and in the results are pairwise distinct and have all arrived. The last two
  predicates follow one process: a lower bound \<open>K\<close> on its completion time, and a
  queue that a time slice of zero never empties.
\<close>

definition all_left_positive :: "rr_state \<Rightarrow> bool" where
  "all_left_positive s \<longleftrightarrow> (\<forall>c \<in> set (schedule s). 0 < snd c)"

definition rr_inv :: "Process list \<Rightarrow> nat \<Rightarrow> rr_state \<Rightarrow> bool" where
  "rr_inv ps B s \<longleftrightarrow>
     unat (time_elapsed s) + work_left ps s \<le> B
   \<and> (\<forall>c \<in> set (schedule s).
        unat (arrival_time (fst c)) + unat (burst_time (fst c))
          \<le> unat (time_elapsed s) + unat (snd c))
   \<and> (\<forall>r \<in> set (results s).
        unat (arrival_time r) + unat (burst_time r) \<le> unat (completion_time r)
      \<and> completion_time r \<le> time_elapsed s
      \<and> turn_around_time r = completion_time r - arrival_time r
      \<and> waiting_time r = turn_around_time r - burst_time r)
   \<and> sorted (map completion_time (results s))"

definition ids_inv :: "rr_state \<Rightarrow> bool" where
  "ids_inv s \<longleftrightarrow>
     distinct (map (\<lambda>c. id_p (fst c)) (schedule s) @ map id_p (results s))
   \<and> (\<forall>c \<in> set (schedule s). id_p (fst c) \<in> arrived_processes s)
   \<and> (\<forall>r \<in> set (results s). id_p r \<in> arrived_processes s)"

definition lb_inv :: "Process \<Rightarrow> nat \<Rightarrow> rr_state \<Rightarrow> bool" where
  "lb_inv p K s \<longleftrightarrow>
     id_p p \<in> arrived_processes s
   \<and> (\<forall>c \<in> set (schedule s). id_p (fst c) = id_p p \<longrightarrow>
        fst c = p \<and> K \<le> unat (time_elapsed s) + unat (snd c))
   \<and> (\<forall>r \<in> set (results s). id_p r = id_p p \<longrightarrow>
        arrival_time r = arrival_time p \<and> burst_time r = burst_time p \<and>
        K \<le> unat (completion_time r))"

definition stuck :: "Process list \<Rightarrow> rr_state \<Rightarrow> bool" where
  "stuck ps s \<longleftrightarrow>
     schedule s \<noteq> [] \<and> all_left_positive s \<and>
     (\<forall>q \<in> set ps. arrival_time q \<le> time_elapsed s \<longrightarrow> id_p q \<in> arrived_processes s)"

text \<open>
  Inputs used below: two processes whose burst times wrap the clock around, two that
  arrive shortly before the clock wraps, a process that is running when two others
  arrive, two processes separated by idle time, two list elements with the same id, and
  a single process. For the printer: a sort by insertion that meets the promise of
  \<^verbatim>\<open>std::sort\<close>, a stream in the state of \<^verbatim>\<open>std::cout\<close> at program start, and three
  results, two of them with the same arrival time.
\<close>

definition wrap_processes :: "Process list" where
  "wrap_processes =
     [\<lparr>id_p = 0, arrival_time = 0, burst_time = 4294967295\<rparr>,
      \<lparr>id_p = 1, arrival_time = 0, burst_time = 4294967295\<rparr>]"

definition late_processes :: "Process list" where
  "late_processes =
     [\<lparr>id_p = 0, arrival_time = 4294967290, burst_time = 3\<rparr>,
      \<lparr>id_p = 1, arrival_time = 4294967290, burst_time = 9\<rparr>]"

definition tie_processes :: "Process list" where
  "tie_processes =
     [\<lparr>id_p = 0, arrival_time = 0, burst_time = 5\<rparr>,
      \<lparr>id_p = 1, arrival_time = 3, burst_time = 1\<rparr>,
      \<lparr>id_p = 2, arrival_time = 3, burst_time = 1\<rparr>]"

definition gap_processes :: "Process list" where
  "gap_processes =
     [\<lparr>id_p = 0, arrival_time = 0, burst_time = 1\<rparr>,
      \<lparr>id_p = 1, arrival_time = 10, burst_time = 1\<rparr>]"

definition twin_processes :: "Process list" where
  "twin_processes =
     [\<lparr>id_p = 0, arrival_time = 5, burst_time = 1\<rparr>,
      \<lparr>id_p = 0, arrival_time = 5, burst_time = 2\<rparr>]"

definition solo_processes :: "Process list" where
  "solo_processes = [\<lparr>id_p = 0, arrival_time = 0, burst_time = 5\<rparr>]"

fun insert_by :: "('a \<Rightarrow> 'a \<Rightarrow> bool) \<Rightarrow> 'a \<Rightarrow> 'a list \<Rightarrow> 'a list" where
  "insert_by cmp x [] = [x]"
| "insert_by cmp x (y # ys) = (if cmp x y then x # y # ys else y # insert_by cmp x ys)"

definition insertion_sort :: "('a \<Rightarrow> 'a \<Rightarrow> bool) \<Rightarrow> 'a list \<Rightarrow> 'a list" where
  "insertion_sort cmp xs = foldr (insert_by cmp) xs []"

definition cout :: ostream where
  "cout = \<lparr>os_text = [], os_width = 0, os_adjust = adjust_right, os_fill = CHR '' ''\<rparr>"

definition tie_results :: "ProcessResult list" where
  "tie_results =
     [\<lparr>id_p = 1, arrival_time = 3, burst_time = 1,
        completion_time = 4, turn_around_time = 1, waiting_time = 0\<rparr>,
      \<lparr>id_p = 2, arrival_time = 3, burst_time = 1,
        completion_time = 5, turn_around_time = 2, waiting_time = 1\<rparr>,
      \<lparr>id_p = 0, arrival_time = 0, burst_time = 5,
        completion_time = 7, turn_around_time = 7, waiting_time = 2\<rparr>]"

section \<open>Admission\<close>

lemma CheckArriveProcess_arrivals:
  "CheckArriveProcess ps arrived sched t =
     (arrived \<union> id_p ` set (arrivals ps arrived t),
      sched @ map (\<lambda>p. (p, burst_time p)) (arrivals ps arrived t))"
  by (induction ps arbitrary: arrived sched) auto

lemma arrivals_subset:
  "q \<in> set (arrivals ps arrived t) \<Longrightarrow> q \<in> set ps \<and> arrival_time q \<le> t \<and> id_p q \<notin> arrived"
  by (induction ps arbitrary: arrived) (auto split: if_splits)

lemma arrivals_distinct: "distinct (map id_p (arrivals ps arrived t))"
  by (induction ps arbitrary: arrived) (auto dest: arrivals_subset)

lemma arrivals_complete:
  "q \<in> set ps \<Longrightarrow> arrival_time q \<le> t \<Longrightarrow> id_p q \<notin> arrived
     \<Longrightarrow> id_p q \<in> id_p ` set (arrivals ps arrived t)"
proof (induction ps arbitrary: arrived)
  case Nil
  then show ?case by simp
next
  case (Cons p ps)
  show ?case
  proof (cases "arrival_time p > t \<or> id_p p \<in> arrived")
    case True
    with Cons.prems have "q \<in> set ps" by auto
    with Cons.IH[of arrived] Cons.prems True show ?thesis by simp
  next
    case False
    show ?thesis
    proof (cases "id_p q = id_p p")
      case True
      with False show ?thesis by simp
    next
      case ne: False
      with Cons.prems have "q \<in> set ps" "id_p q \<notin> insert (id_p p) arrived" by auto
      with Cons.IH[of "insert (id_p p) arrived"] Cons.prems False show ?thesis by simp
    qed
  qed
qed

lemma arrivals_distinct_ids:
  "distinct (map id_p ps) \<Longrightarrow>
   arrivals ps arrived t = filter (\<lambda>p. arrival_time p \<le> t \<and> id_p p \<notin> arrived) ps"
proof (induction ps arbitrary: arrived)
  case Nil
  then show ?case by simp
next
  case (Cons p ps)
  have ne: "\<And>q. q \<in> set ps \<Longrightarrow> id_p q \<noteq> id_p p"
    using Cons.prems by (metis distinct.simps(2) imageI list.simps(9) set_map)
  have "filter (\<lambda>q. arrival_time q \<le> t \<and> id_p q \<notin> insert (id_p p) arrived) ps
      = filter (\<lambda>q. arrival_time q \<le> t \<and> id_p q \<notin> arrived) ps"
    using ne by (intro filter_cong) auto
  with Cons show ?case by (auto simp: not_less)
qed

lemma arrivals_none:
  assumes "\<forall>q \<in> set ps. arrival_time q \<le> t \<longrightarrow> id_p q \<in> arrived"
  shows "arrivals ps arrived t = []"
proof (rule ccontr)
  assume "arrivals ps arrived t \<noteq> []"
  then obtain q where "q \<in> set (arrivals ps arrived t)" by (cases "arrivals ps arrived t") auto
  then have "q \<in> set ps \<and> arrival_time q \<le> t \<and> id_p q \<notin> arrived" by (rule arrivals_subset)
  with assms show False by blast
qed

lemma pending_mono:
  "arrived \<subseteq> arrived' \<Longrightarrow> total_burst (pending ps arrived') \<le> total_burst (pending ps arrived)"
  by (induction ps) (auto simp: pending_def total_burst_def)

lemma pending_remove_one:
  "p \<in> set ps \<Longrightarrow> id_p p \<notin> arrived \<Longrightarrow>
   unat (burst_time p) + total_burst (pending ps (insert (id_p p) arrived))
     \<le> total_burst (pending ps arrived)"
proof (induction ps)
  case Nil
  then show ?case by simp
next
  case (Cons a ps)
  have m: "total_burst (pending ps (insert (id_p p) arrived)) \<le> total_burst (pending ps arrived)"
    by (rule pending_mono) auto
  show ?case
  proof (cases "p \<in> set ps")
    case True
    from Cons.IH[OF this Cons.prems(2)] show ?thesis
      by (simp add: pending_def total_burst_def)
  next
    case False
    with Cons.prems have "a = p" by auto
    with Cons.prems m show ?thesis by (simp add: pending_def total_burst_def)
  qed
qed

lemma pending_remove_many:
  "set new \<subseteq> set ps \<Longrightarrow> distinct (map id_p new) \<Longrightarrow> id_p ` set new \<inter> arrived = {} \<Longrightarrow>
   total_burst new + total_burst (pending ps (arrived \<union> id_p ` set new))
     \<le> total_burst (pending ps arrived)"
proof (induction new arbitrary: arrived)
  case Nil
  then show ?case by (simp add: total_burst_def)
next
  case (Cons p new)
  have a: "unat (burst_time p) + total_burst (pending ps (insert (id_p p) arrived))
     \<le> total_burst (pending ps arrived)"
    using Cons.prems by (intro pending_remove_one) auto
  have b: "total_burst new + total_burst (pending ps (insert (id_p p) arrived \<union> id_p ` set new))
     \<le> total_burst (pending ps (insert (id_p p) arrived))"
    using Cons.prems by (intro Cons.IH) auto
  have "total_burst (p # new) = unat (burst_time p) + total_burst new"
    by (simp add: total_burst_def)
  with a b show ?case by simp
qed

lemma arrivals_work:
  "total_burst (arrivals ps arrived t)
     + total_burst (pending ps (arrived \<union> id_p ` set (arrivals ps arrived t)))
   \<le> total_burst (pending ps arrived)"
  by (rule pending_remove_many) (auto dest: arrivals_subset simp: arrivals_distinct)

lemma queue_left_arrivals:
  "queue_left (map (\<lambda>p. (p, burst_time p)) new) = total_burst new"
  by (simp add: queue_left_def total_burst_def comp_def)

lemma queue_left_append: "queue_left (xs @ ys) = queue_left xs + queue_left ys"
  by (simp add: queue_left_def)

lemma queue_left_Cons: "queue_left (c # q) = unat (snd c) + queue_left q"
  by (simp add: queue_left_def)

section \<open>One pass of the loop\<close>

lemma quantum_le: "quantum ts left \<le> left"
  by (auto simp: quantum_def)

lemma unat_quantum_le: "unat (quantum ts left) \<le> unat left"
  using quantum_le by (simp add: word_le_nat_alt)

lemma unat_left_minus_quantum:
  "unat (left - quantum ts left) = unat left - unat (quantum ts left)"
  by (simp add: unat_sub quantum_le)

lemma quantum_positive: "1 \<le> ts \<Longrightarrow> 0 < left \<Longrightarrow> 0 < unat (quantum ts left)"
  by (auto simp: quantum_def unat_gt_0 word_le_nat_alt)

lemma quantum_zero: "quantum 0 left = 0"
  by (auto simp: quantum_def word_greater_zero_iff)

lemma rr_body_schedule:
  "schedule (rr_body ps ts (p, left) s) =
     schedule s @ map (\<lambda>q. (q, burst_time q))
                   (arrivals ps (arrived_processes s) (time_elapsed s + quantum ts left))
     @ (if left - quantum ts left > 0 then [(p, left - quantum ts left)] else [])"
  by (simp add: rr_body_def quantum_def CheckArriveProcess_arrivals Let_def)

lemma rr_body_arrived:
  "arrived_processes (rr_body ps ts (p, left) s) =
     arrived_processes s \<union>
     id_p ` set (arrivals ps (arrived_processes s) (time_elapsed s + quantum ts left))"
  by (simp add: rr_body_def quantum_def CheckArriveProcess_arrivals Let_def)

lemma rr_body_time: "time_elapsed (rr_body ps ts (p, left) s) = time_elapsed s + quantum ts left"
  by (simp add: rr_body_def quantum_def CheckArriveProcess_arrivals Let_def)

lemma rr_body_results:
  "results (rr_body ps ts (p, left) s) =
     results s @ (if left - quantum ts left > 0 then []
                  else [mk_ProcessResult p (time_elapsed s + quantum ts left)])"
  by (simp add: rr_body_def quantum_def CheckArriveProcess_arrivals Let_def)

lemmas rr_body_sel = rr_body_schedule rr_body_arrived rr_body_time rr_body_results

lemma work_left_body:
  assumes sch: "schedule s = (p, left) # rest"
  shows "work_left ps (rr_body ps ts (p, left) (s\<lparr>schedule := rest\<rparr>)) + unat (quantum ts left)
     \<le> work_left ps s"
proof -
  let ?t = "time_elapsed s + quantum ts left"
  let ?new = "arrivals ps (arrived_processes s) ?t"
  have a: "total_burst ?new + total_burst (pending ps (arrived_processes s \<union> id_p ` set ?new))
            \<le> total_burst (pending ps (arrived_processes s))"
    by (rule arrivals_work)
  have b: "unat (left - quantum ts left) + unat (quantum ts left) = unat left"
    using unat_quantum_le[of ts left] by (simp add: unat_left_minus_quantum)
  have c: "queue_left (if left - quantum ts left > 0 then [(p, left - quantum ts left)] else [])
            = unat (left - quantum ts left)"
    by (auto simp: queue_left_def word_greater_zero_iff)
  show ?thesis
    using a b c
    by (simp add: work_left_def sch rr_body_sel queue_left_append queue_left_Cons
        queue_left_arrivals)
qed

lemma all_left_positive_body:
  assumes "all_left_positive s" and "\<forall>q \<in> set ps. 1 \<le> burst_time q"
    and sch: "schedule s = (p, left) # rest"
  shows "all_left_positive (rr_body ps ts (p, left) (s\<lparr>schedule := rest\<rparr>))"
proof -
  have "0 < burst_time q" if "q \<in> set (arrivals ps a t)" for q a t
  proof -
    from that have "q \<in> set ps" by (auto dest: arrivals_subset)
    with assms(2) have "1 \<le> burst_time q" by simp
    then show ?thesis by (auto simp: word_le_nat_alt word_greater_zero_iff)
  qed
  with assms(1) show ?thesis
    by (auto simp: all_left_positive_def sch rr_body_sel)
qed

lemma work_left_decreases:
  assumes "all_left_positive s" and "1 \<le> ts" and sch: "schedule s = (p, left) # rest"
  shows "work_left ps (rr_body ps ts (p, left) (s\<lparr>schedule := rest\<rparr>)) < work_left ps s"
proof -
  from assms(1) have "0 < left" by (simp add: all_left_positive_def sch)
  with assms(2) have "0 < unat (quantum ts left)" by (rule quantum_positive)
  with work_left_body[OF sch, of ps ts] show ?thesis by linarith
qed

lemma rr_inv_time:
  assumes inv: "rr_inv ps B s" and B: "B < 2 ^ 32" and sch: "schedule s = (p, left) # rest"
  shows "unat (time_elapsed s + quantum ts left) = unat (time_elapsed s) + unat (quantum ts left)"
proof -
  from inv have "unat (time_elapsed s) + work_left ps s \<le> B" by (simp add: rr_inv_def)
  moreover have "unat left \<le> work_left ps s"
    by (simp add: work_left_def sch queue_left_Cons)
  ultimately have "unat (time_elapsed s) + unat (quantum ts left) < 2 ^ 32"
    using B unat_quantum_le[of ts left] by linarith
  then show ?thesis
    using unat_add_lem[of "time_elapsed s" "quantum ts left"] by simp
qed

lemma rr_inv_body:
  assumes inv: "rr_inv ps B s" and B: "B < 2 ^ 32" and sch: "schedule s = (p, left) # rest"
  shows "rr_inv ps B (rr_body ps ts (p, left) (s\<lparr>schedule := rest\<rparr>))"
proof -
  let ?e = "quantum ts left"
  let ?t = "time_elapsed s + ?e"
  let ?s' = "rr_body ps ts (p, left) (s\<lparr>schedule := rest\<rparr>)"
  from inv sch have bound: "unat (time_elapsed s) + work_left ps s \<le> B"
    and queue: "\<forall>c \<in> set ((p, left) # rest).
        unat (arrival_time (fst c)) + unat (burst_time (fst c)) \<le> unat (time_elapsed s) + unat (snd c)"
    and res: "\<forall>r \<in> set (results s).
        unat (arrival_time r) + unat (burst_time r) \<le> unat (completion_time r)
      \<and> completion_time r \<le> time_elapsed s
      \<and> turn_around_time r = completion_time r - arrival_time r
      \<and> waiting_time r = turn_around_time r - burst_time r"
    and srt: "sorted (map completion_time (results s))"
    by (simp_all add: rr_inv_def)
  have "unat left \<le> work_left ps s"
    by (simp add: work_left_def sch queue_left_Cons)
  with bound B unat_quantum_le[of ts left]
  have "unat (time_elapsed s) + unat ?e < 2 ^ 32" by linarith
  then have t: "unat ?t = unat (time_elapsed s) + unat ?e"
    using unat_add_lem[of "time_elapsed s" ?e] by simp
  have le: "time_elapsed s \<le> ?t"
    by (simp add: word_le_nat_alt t)
  have 1: "unat (time_elapsed ?s') + work_left ps ?s' \<le> B"
    using bound work_left_body[OF sch, of ps ts] t by (simp add: rr_body_time)
  have cur: "unat (arrival_time p) + unat (burst_time p) \<le> unat ?t + unat (left - ?e)"
    using queue unat_quantum_le[of ts left] by (simp add: t unat_left_minus_quantum)
  have 2: "\<forall>c \<in> set (schedule ?s').
        unat (arrival_time (fst c)) + unat (burst_time (fst c))
          \<le> unat (time_elapsed ?s') + unat (snd c)"
  proof
    fix c assume "c \<in> set (schedule ?s')"
    then consider "c \<in> set rest"
      | q where "c = (q, burst_time q)" "q \<in> set (arrivals ps (arrived_processes s) ?t)"
      | "c = (p, left - ?e)"
      by (auto simp: rr_body_schedule split: if_splits)
    then show "unat (arrival_time (fst c)) + unat (burst_time (fst c))
          \<le> unat (time_elapsed ?s') + unat (snd c)"
    proof cases
      case 1
      with queue have "unat (arrival_time (fst c)) + unat (burst_time (fst c))
          \<le> unat (time_elapsed s) + unat (snd c)" by simp
      then show ?thesis by (simp add: rr_body_time t)
    next
      case 2
      then have "arrival_time q \<le> ?t" by (auto dest: arrivals_subset)
      then have "unat (arrival_time q) \<le> unat ?t" by (simp add: word_le_nat_alt)
      with 2 show ?thesis by (simp add: rr_body_time)
    next
      case 3
      with cur show ?thesis by (simp add: rr_body_time)
    qed
  qed
  have old: "\<forall>r \<in> set (results s). completion_time r \<le> ?t"
    using res le by (meson order_trans)
  have new: "unat (arrival_time p) + unat (burst_time p) \<le> unat ?t" if "\<not> 0 < left - ?e"
  proof -
    from that have "unat (left - ?e) = 0" by (simp add: word_greater_zero_iff unat_eq_0)
    with cur show ?thesis by simp
  qed
  have 3: "\<forall>r \<in> set (results ?s').
        unat (arrival_time r) + unat (burst_time r) \<le> unat (completion_time r)
      \<and> completion_time r \<le> time_elapsed ?s'
      \<and> turn_around_time r = completion_time r - arrival_time r
      \<and> waiting_time r = turn_around_time r - burst_time r"
    using res old new by (auto simp: rr_body_results rr_body_time mk_ProcessResult_def)
  have 4: "sorted (map completion_time (results ?s'))"
    using srt old by (auto simp: rr_body_results sorted_append mk_ProcessResult_def)
  from 1 2 3 4 show ?thesis unfolding rr_inv_def by blast
qed

lemma distinct_ids_step:
  assumes "distinct (i # Q @ Rs)" and "distinct N" and "set N \<inter> A = {}"
    and "insert i (set Q \<union> set Rs) \<subseteq> A"
  shows "distinct (Q @ N @ [i] @ Rs)" and "distinct (Q @ N @ Rs @ [i])"
  using assms by auto

lemma ids_inv_body:
  assumes inv: "ids_inv s" and sch: "schedule s = (p, left) # rest"
  shows "ids_inv (rr_body ps ts (p, left) (s\<lparr>schedule := rest\<rparr>))"
proof -
  let ?t = "time_elapsed s + quantum ts left"
  let ?new = "arrivals ps (arrived_processes s) ?t"
  let ?s' = "rr_body ps ts (p, left) (s\<lparr>schedule := rest\<rparr>)"
  define Q where "Q = map (\<lambda>c. id_p (fst c)) rest"
  define N where "N = map id_p ?new"
  define Rs where "Rs = map id_p (results s)"
  have fresh: "set N \<inter> arrived_processes s = {}"
    by (auto simp: N_def dest: arrivals_subset)
  have dn: "distinct N" unfolding N_def by (rule arrivals_distinct)
  have mp: "map ((\<lambda>c. id_p (fst c)) \<circ> (\<lambda>q. (q, burst_time q))) ?new = N"
    unfolding N_def by (simp add: comp_def)
  from inv sch have d: "distinct (id_p p # Q @ Rs)"
    and a: "insert (id_p p) (set Q \<union> set Rs) \<subseteq> arrived_processes s"
    by (auto simp: ids_inv_def Q_def Rs_def)
  note dd = distinct_ids_step[OF d dn fresh a]
  have ids: "map (\<lambda>c. id_p (fst c)) (schedule ?s') @ map id_p (results ?s')
      = (if 0 < left - quantum ts left then Q @ N @ [id_p p] @ Rs else Q @ N @ Rs @ [id_p p])"
    by (simp add: rr_body_sel mp Q_def Rs_def mk_ProcessResult_def del: word_greater_zero_iff)
  have 1: "distinct (map (\<lambda>c. id_p (fst c)) (schedule ?s') @ map id_p (results ?s'))"
    unfolding ids using dd by (simp del: word_greater_zero_iff)
  have "set (map (\<lambda>c. id_p (fst c)) (schedule ?s') @ map id_p (results ?s'))
          \<subseteq> arrived_processes ?s'"
    unfolding ids using a by (auto simp: rr_body_arrived N_def)
  then have 2: "\<forall>c \<in> set (schedule ?s'). id_p (fst c) \<in> arrived_processes ?s'"
    and 3: "\<forall>r \<in> set (results ?s'). id_p r \<in> arrived_processes ?s'"
    by auto
  from 1 2 3 show ?thesis unfolding ids_inv_def by blast
qed

lemma lb_inv_body:
  assumes lb: "lb_inv p K s" and inv: "rr_inv ps B s" and B: "B < 2 ^ 32"
    and sch: "schedule s = (q, left) # rest"
  shows "lb_inv p K (rr_body ps ts (q, left) (s\<lparr>schedule := rest\<rparr>))"
proof -
  let ?e = "quantum ts left"
  let ?t = "time_elapsed s + ?e"
  let ?new = "arrivals ps (arrived_processes s) ?t"
  let ?s' = "rr_body ps ts (q, left) (s\<lparr>schedule := rest\<rparr>)"
  have t: "unat ?t = unat (time_elapsed s) + unat ?e"
    using inv B sch by (rule rr_inv_time)
  have sum: "unat ?t + unat (left - ?e) = unat (time_elapsed s) + unat left"
    using unat_quantum_le[of ts left] by (simp add: t unat_left_minus_quantum)
  from lb have ar: "id_p p \<in> arrived_processes s"
    and qu: "\<forall>c \<in> set ((q, left) # rest). id_p (fst c) = id_p p \<longrightarrow>
        fst c = p \<and> K \<le> unat (time_elapsed s) + unat (snd c)"
    and re: "\<forall>r \<in> set (results s). id_p r = id_p p \<longrightarrow>
        arrival_time r = arrival_time p \<and> burst_time r = burst_time p \<and>
        K \<le> unat (completion_time r)"
    by (simp_all add: lb_inv_def sch)
  have fresh: "id_p x \<noteq> id_p p" if "x \<in> set ?new" for x
    using that ar by (auto dest: arrivals_subset)
  have 1: "id_p p \<in> arrived_processes ?s'"
    using ar by (simp add: rr_body_arrived)
  have 2: "\<forall>c \<in> set (schedule ?s'). id_p (fst c) = id_p p \<longrightarrow>
        fst c = p \<and> K \<le> unat (time_elapsed ?s') + unat (snd c)"
  proof (intro ballI impI)
    fix c assume c: "c \<in> set (schedule ?s')" and i: "id_p (fst c) = id_p p"
    from c consider "c \<in> set rest"
      | x where "c = (x, burst_time x)" "x \<in> set ?new"
      | "c = (q, left - ?e)"
      by (auto simp: rr_body_schedule split: if_splits)
    then show "fst c = p \<and> K \<le> unat (time_elapsed ?s') + unat (snd c)"
    proof cases
      case 1
      with qu i have "fst c = p \<and> K \<le> unat (time_elapsed s) + unat (snd c)" by simp
      then show ?thesis by (simp add: rr_body_time t)
    next
      case 2
      with fresh i show ?thesis by auto
    next
      case 3
      with qu i have "q = p \<and> K \<le> unat (time_elapsed s) + unat left" by simp
      with 3 sum show ?thesis by (simp add: rr_body_time)
    qed
  qed
  have 3: "\<forall>r \<in> set (results ?s'). id_p r = id_p p \<longrightarrow>
        arrival_time r = arrival_time p \<and> burst_time r = burst_time p \<and>
        K \<le> unat (completion_time r)"
  proof (intro ballI impI)
    fix r assume r: "r \<in> set (results ?s')" and i: "id_p r = id_p p"
    from r consider "r \<in> set (results s)"
      | "r = mk_ProcessResult q ?t" "\<not> 0 < left - ?e"
      by (auto simp: rr_body_results split: if_splits)
    then show "arrival_time r = arrival_time p \<and> burst_time r = burst_time p \<and>
        K \<le> unat (completion_time r)"
    proof cases
      case 1
      with re i show ?thesis by simp
    next
      case 2
      from 2(2) have z: "unat (left - ?e) = 0" by (simp add: word_greater_zero_iff unat_eq_0)
      from 2(1) i have "id_p q = id_p p" by (simp add: mk_ProcessResult_def)
      with qu have "q = p \<and> K \<le> unat (time_elapsed s) + unat left" by simp
      with 2(1) sum z show ?thesis by (simp add: mk_ProcessResult_def)
    qed
  qed
  from 1 2 3 show ?thesis unfolding lb_inv_def by blast
qed

lemma stuck_body:
  assumes "stuck ps s" and sch: "schedule s = (p, left) # rest"
  shows "stuck ps (rr_body ps 0 (p, left) (s\<lparr>schedule := rest\<rparr>))"
proof -
  from assms have pos: "all_left_positive s"
    and adm: "\<forall>q \<in> set ps. arrival_time q \<le> time_elapsed s \<longrightarrow> id_p q \<in> arrived_processes s"
    by (simp_all add: stuck_def)
  from adm have none: "arrivals ps (arrived_processes s) (time_elapsed s) = []"
    by (rule arrivals_none)
  from pos sch have "0 < left" by (simp add: all_left_positive_def)
  with pos sch adm none show ?thesis
    by (simp add: stuck_def all_left_positive_def rr_body_sel quantum_zero)
qed

section \<open>Runs of the loop\<close>

lemma rr_reach_first:
  assumes "rr_reach ps ts (rr_body ps ts c (s\<lparr>schedule := rest\<rparr>)) s'" and "schedule s = c # rest"
  shows "rr_reach ps ts s s'"
  using assms
proof (induction rule: rr_reach.induct)
  case start
  show ?case using rr_reach.pass[OF rr_reach.start start] .
next
  case (pass s1 current rest1)
  then show ?case by (auto intro: rr_reach.pass)
qed

lemma rr_loop_reach:
  assumes "rr_loop ps ts s = Some R"
  shows "\<exists>s'. rr_reach ps ts s s' \<and> schedule s' = [] \<and> results s' = R"
proof (rule rr_loop.raw_induct[where P = "\<lambda>ps ts s R.
         \<exists>s'. rr_reach ps ts s s' \<and> schedule s' = [] \<and> results s' = R", OF _ assms])
  fix loop :: "Process list \<Rightarrow> uint32_t \<Rightarrow> rr_state \<Rightarrow> ProcessResult list option"
  fix ps ts s R
  assume IH: "\<And>ps ts s R. loop ps ts s = Some R \<Longrightarrow>
                \<exists>s'. rr_reach ps ts s s' \<and> schedule s' = [] \<and> results s' = R"
    and eq: "(case schedule s of [] \<Rightarrow> Some (results s)
              | current # rest \<Rightarrow> loop ps ts (rr_body ps ts current (s\<lparr>schedule := rest\<rparr>)))
             = Some R"
  show "\<exists>s'. rr_reach ps ts s s' \<and> schedule s' = [] \<and> results s' = R"
  proof (cases "schedule s")
    case Nil
    with eq have "results s = R" by simp
    with Nil show ?thesis by (auto intro: rr_reach.start)
  next
    case (Cons c rest)
    with eq have "loop ps ts (rr_body ps ts c (s\<lparr>schedule := rest\<rparr>)) = Some R" by simp
    from IH[OF this] obtain s' where
      "rr_reach ps ts (rr_body ps ts c (s\<lparr>schedule := rest\<rparr>)) s'" "schedule s' = []" "results s' = R"
      by blast
    with Cons show ?thesis by (auto intro: rr_reach_first)
  qed
qed

lemma rr_loop_along:
  "rr_reach ps ts s0 s \<Longrightarrow> rr_loop ps ts s = rr_loop ps ts s0"
proof (induction rule: rr_reach.induct)
  case start
  show ?case by simp
next
  case (pass s current rest)
  have "rr_loop ps ts s = rr_loop ps ts (rr_body ps ts current (s\<lparr>schedule := rest\<rparr>))"
    by (subst rr_loop.simps) (simp add: pass.hyps)
  with pass.IH show ?case by simp
qed

lemma rr_loop_terminates:
  assumes "1 \<le> ts" and "\<forall>q \<in> set ps. 1 \<le> burst_time q"
  shows "all_left_positive s \<Longrightarrow> \<exists>R. rr_loop ps ts s = Some R"
proof (induction "work_left ps s" arbitrary: s rule: less_induct)
  case less
  show ?case
  proof (cases "schedule s")
    case Nil
    then show ?thesis by (subst rr_loop.simps) simp
  next
    case (Cons c rest)
    obtain p left where c: "c = (p, left)" by (cases c)
    let ?s' = "rr_body ps ts (p, left) (s\<lparr>schedule := rest\<rparr>)"
    from Cons c have sch: "schedule s = (p, left) # rest" by simp
    have "work_left ps ?s' < work_left ps s"
      using less.prems assms(1) sch by (rule work_left_decreases)
    moreover have "all_left_positive ?s'"
      using less.prems assms(2) sch by (rule all_left_positive_body)
    ultimately obtain R where "rr_loop ps ts ?s' = Some R"
      using less.hyps by blast
    then show ?thesis by (subst rr_loop.simps) (simp add: sch)
  qed
qed

lemma rr_loop_stuck:
  assumes "rr_loop ps ts s = Some R"
  shows "\<not> (ts = 0 \<and> stuck ps s)"
proof (rule rr_loop.raw_induct[where P = "\<lambda>ps ts s R. \<not> (ts = 0 \<and> stuck ps s)", OF _ assms])
  fix loop :: "Process list \<Rightarrow> uint32_t \<Rightarrow> rr_state \<Rightarrow> ProcessResult list option"
  fix ps ts s R
  assume IH: "\<And>ps ts s R. loop ps ts s = Some R \<Longrightarrow> \<not> (ts = 0 \<and> stuck ps s)"
    and eq: "(case schedule s of [] \<Rightarrow> Some (results s)
              | current # rest \<Rightarrow> loop ps ts (rr_body ps ts current (s\<lparr>schedule := rest\<rparr>)))
             = Some R"
  show "\<not> (ts = 0 \<and> stuck ps s)"
  proof
    assume a: "ts = 0 \<and> stuck ps s"
    then obtain c rest where sch: "schedule s = c # rest"
      by (cases "schedule s") (auto simp: stuck_def)
    obtain p left where c: "c = (p, left)" by (cases c)
    from eq sch have "loop ps ts (rr_body ps ts c (s\<lparr>schedule := rest\<rparr>)) = Some R" by simp
    from IH[OF this] a have "\<not> stuck ps (rr_body ps 0 c (s\<lparr>schedule := rest\<rparr>))" by simp
    moreover from a sch c have "stuck ps (rr_body ps 0 c (s\<lparr>schedule := rest\<rparr>))"
      by (auto intro: stuck_body)
    ultimately show False by contradiction
  qed
qed

lemma rr_reach_all_left_positive:
  assumes "rr_reach ps ts s0 s" and "all_left_positive s0" and "\<forall>q \<in> set ps. 1 \<le> burst_time q"
  shows "all_left_positive s"
  using assms
proof (induction rule: rr_reach.induct)
  case start
  then show ?case by simp
next
  case (pass s current rest)
  obtain p left where "current = (p, left)" by (cases current)
  with pass show ?case by (auto intro: all_left_positive_body)
qed

lemma rr_reach_inv:
  assumes "rr_reach ps ts s0 s" and "rr_inv ps B s0" and "B < 2 ^ 32"
  shows "rr_inv ps B s"
  using assms
proof (induction rule: rr_reach.induct)
  case start
  then show ?case by simp
next
  case (pass s current rest)
  obtain p left where "current = (p, left)" by (cases current)
  with pass show ?case by (auto intro: rr_inv_body)
qed

lemma rr_reach_ids:
  assumes "rr_reach ps ts s0 s" and "ids_inv s0"
  shows "ids_inv s"
  using assms
proof (induction rule: rr_reach.induct)
  case start
  then show ?case by simp
next
  case (pass s current rest)
  obtain p left where "current = (p, left)" by (cases current)
  with pass show ?case by (auto intro: ids_inv_body)
qed

lemma rr_reach_lb:
  assumes "rr_reach ps ts s1 s" and "lb_inv p K s1" and "rr_inv ps B s1" and "B < 2 ^ 32"
  shows "lb_inv p K s \<and> rr_inv ps B s"
  using assms
proof (induction rule: rr_reach.induct)
  case start
  then show ?case by simp
next
  case (pass s current rest)
  obtain q left where "current = (q, left)" by (cases current)
  with pass show ?case by (auto intro: lb_inv_body rr_inv_body)
qed

section \<open>The first state\<close>

lemma min_element_from_least:
  "arrival_time (min_element_from m ps) \<le> arrival_time m \<and>
   (\<forall>p \<in> set ps. arrival_time (min_element_from m ps) \<le> arrival_time p) \<and>
   min_element_from m ps \<in> set (m # ps)"
proof (induction ps arbitrary: m)
  case Nil
  then show ?case by simp
next
  case (Cons a ps)
  let ?m = "if CompareAT a m then a else m"
  from Cons.IH[of ?m] show ?case
    by (auto simp: CompareAT_def not_less split: if_splits)
qed

lemma min_element_least:
  assumes "min_element ps = Some m"
  shows "m \<in> set ps" and "\<forall>p \<in> set ps. arrival_time m \<le> arrival_time p"
  using assms min_element_from_least by (cases ps; auto)+

lemma min_element_Some: "ps \<noteq> [] \<Longrightarrow> \<exists>m. min_element ps = Some m"
  by (cases ps) auto

lemma rr_init_sel:
  "schedule (rr_init ps t0) = map (\<lambda>q. (q, burst_time q)) (arrivals ps {} t0)"
  "arrived_processes (rr_init ps t0) = id_p ` set (arrivals ps {} t0)"
  "time_elapsed (rr_init ps t0) = t0"
  "results (rr_init ps t0) = []"
  by (simp_all add: rr_init_def CheckArriveProcess_arrivals)

lemma rr_init_positive:
  assumes "\<forall>q \<in> set ps. 1 \<le> burst_time q"
  shows "all_left_positive (rr_init ps t0)"
proof -
  have "0 < burst_time q" if "q \<in> set (arrivals ps {} t0)" for q
  proof -
    from that have "q \<in> set ps" by (auto dest: arrivals_subset)
    with assms have "1 \<le> burst_time q" by simp
    then show ?thesis by (auto simp: word_le_nat_alt word_greater_zero_iff)
  qed
  then show ?thesis by (auto simp: all_left_positive_def rr_init_sel)
qed

lemma rr_init_inv: "rr_inv ps (unat t0 + total_burst ps) (rr_init ps t0)"
proof -
  have "total_burst (arrivals ps {} t0)
          + total_burst (pending ps ({} \<union> id_p ` set (arrivals ps {} t0)))
        \<le> total_burst (pending ps {})"
    by (rule arrivals_work)
  then have "work_left ps (rr_init ps t0) \<le> total_burst ps"
    by (simp add: work_left_def rr_init_sel queue_left_arrivals pending_def)
  moreover have "unat (arrival_time q) \<le> unat t0" if "q \<in> set (arrivals ps {} t0)" for q
    using that by (auto dest: arrivals_subset simp: word_le_nat_alt)
  ultimately show ?thesis
    by (auto simp: rr_inv_def rr_init_sel)
qed

lemma rr_init_ids: "ids_inv (rr_init ps t0)"
  by (simp add: ids_inv_def rr_init_sel comp_def arrivals_distinct)

lemma rr_init_stuck:
  assumes "min_element ps = Some m" and "\<forall>q \<in> set ps. 1 \<le> burst_time q"
  shows "stuck ps (rr_init ps (arrival_time m))"
proof -
  from min_element_least(1)[OF assms(1)] have "m \<in> set ps" .
  then have "id_p m \<in> id_p ` set (arrivals ps {} (arrival_time m))"
    by (rule arrivals_complete) simp_all
  then have "schedule (rr_init ps (arrival_time m)) \<noteq> []"
    by (auto simp: rr_init_sel)
  moreover have "\<forall>q \<in> set ps. arrival_time q \<le> arrival_time m \<longrightarrow>
                  id_p q \<in> id_p ` set (arrivals ps {} (arrival_time m))"
    by (auto intro: arrivals_complete)
  ultimately show ?thesis
    using rr_init_positive[OF assms(2)] by (simp add: stuck_def rr_init_sel)
qed

lemma RRExecute_Some:
  assumes "min_element ps = Some m"
  shows "RRExecute ps ts = map_option Inr (rr_loop ps ts (rr_init ps (arrival_time m)))"
  using assms by (simp add: RRExecute_def)

lemma RRExecute_returns:
  assumes "preconditions ps ts"
  obtains m R sf where "min_element ps = Some m" "RRExecute ps ts = Some (Inr R)"
    "rr_loop ps ts (rr_init ps (arrival_time m)) = Some R"
    "rr_reach ps ts (rr_init ps (arrival_time m)) sf" "schedule sf = []" "results sf = R"
proof -
  from assms have ne: "ps \<noteq> []" and ts: "1 \<le> ts" and bt: "\<forall>q \<in> set ps. 1 \<le> burst_time q"
    by (simp_all add: preconditions_def list_all_iff)
  from ne obtain m where m: "min_element ps = Some m" using min_element_Some by blast
  from rr_loop_terminates[OF ts bt rr_init_positive[OF bt]]
  obtain R where R: "rr_loop ps ts (rr_init ps (arrival_time m)) = Some R" by blast
  from rr_loop_reach[OF R] obtain sf where
    "rr_reach ps ts (rr_init ps (arrival_time m)) sf" "schedule sf = []" "results sf = R" by blast
  moreover from m R have "RRExecute ps ts = Some (Inr R)" by (simp add: RRExecute_def)
  ultimately show thesis using m R that by blast
qed

lemma rr_reach_init_inv:
  assumes "min_element ps = Some m" and "no_overflow ps"
    and "rr_reach ps ts (rr_init ps (arrival_time m)) s"
  shows "rr_inv ps (unat (arrival_time m) + total_burst ps) s"
proof -
  from assms(1,2) have "unat (arrival_time m) + total_burst ps < 2 ^ 32"
    by (simp add: no_overflow_def)
  with rr_reach_inv[OF assms(3) rr_init_inv] show ?thesis by simp
qed

lemma RRExecute_zero_slice:
  assumes "ps \<noteq> []" and "\<forall>q \<in> set ps. 1 \<le> burst_time q"
  shows "RRExecute ps 0 = None"
proof -
  from assms(1) obtain m where m: "min_element ps = Some m" using min_element_Some by blast
  have "rr_loop ps 0 (rr_init ps (arrival_time m)) = None"
  proof (cases "rr_loop ps 0 (rr_init ps (arrival_time m))")
    case None
    then show ?thesis .
  next
    case (Some R)
    from rr_loop_stuck[OF this] rr_init_stuck[OF m assms(2)] show ?thesis by simp
  qed
  with m show ?thesis by (simp add: RRExecute_def)
qed

lemma RRExecute_not_InvalidArgument: "RRExecute ps ts \<noteq> Some (Inl InvalidArgument)"
  by (cases "min_element ps") (auto simp: RRExecute_def)

lemma distinct_map_eq:
  assumes "distinct (map f xs)" and "x \<in> set xs" and "y \<in> set xs" and "f x = f y"
  shows "x = y"
  using assms by (meson distinct_map inj_onD)

section \<open>The printed table\<close>

lemma digit_in: "n < 10 \<Longrightarrow> digit n \<in> set ''0123456789''"
  unfolding digit_def by (rule nth_mem) simp

lemma decimal_length: "0 < k \<Longrightarrow> n < 10 ^ k \<Longrightarrow> length (decimal n) \<le> k"
proof (induction n arbitrary: k rule: decimal.induct)
  case (1 n)
  show ?case
  proof (cases "n < 10")
    case True
    with 1(2) show ?thesis by (subst decimal.simps) simp
  next
    case False
    with 1(2,3) have k: "1 < k" by (cases "k = 1") auto
    then obtain j where j: "k = Suc j" "0 < j" by (cases k) auto
    with 1(3) have "n div 10 < 10 ^ j"
      by (simp add: less_mult_imp_div_less mult.commute)
    from 1(1)[OF False j(2) this] j False show ?thesis
      by (subst decimal.simps) simp
  qed
qed

lemma decimal_digits: "set (decimal n) \<subseteq> set ''0123456789''"
proof (induction n rule: decimal.induct)
  case (1 n)
  show ?case
  proof (cases "n < 10")
    case True
    with digit_in[of n] show ?thesis by (subst decimal.simps) simp
  next
    case False
    have "n mod 10 < 10" by simp
    from digit_in[OF this] 1[OF False] False show ?thesis
      by (subst decimal.simps) simp
  qed
qed

lemma to_string_length: "length (to_string w) \<le> 10"
proof -
  have "unat w < 2 ^ 32" using unsigned_less[of w, where ?'a = nat] by simp
  then have "unat w < 10 ^ 10" by simp
  then show ?thesis unfolding to_string_def by (intro decimal_length) simp_all
qed

lemma to_string_no_newline: "newline \<notin> set (to_string w)"
  using decimal_digits[of "unat w"] by (auto simp: to_string_def newline_def)

lemma PrintCell_eq:
  "PrintCell os str =
     os\<lparr>os_text := os_text os @ str @ replicate (17 - length str) (os_fill os),
        os_width := 0, os_adjust := adjust_left\<rparr>"
  by (simp add: PrintCell_def insert_string_def std_left_def setw_def)

lemma print_row:
  assumes "os_width os = 0"
  shows "(let os = PrintCell os (to_string (id_p p));
              os = PrintCell os (to_string (arrival_time p));
              os = PrintCell os (to_string (burst_time p));
              os = PrintCell os (to_string (completion_time p));
              os = PrintCell os (to_string (turn_around_time p));
              os = PrintCell os (to_string (waiting_time p))
          in insert_string os [newline])
         = os\<lparr>os_text := os_text os @ table_line (os_fill os) (table_row p),
              os_adjust := adjust_left\<rparr>"
  using assms
  by (simp add: PrintCell_eq insert_string_def table_line_def table_row_def Let_def)

lemma print_rows:
  assumes "os_width os = 0" and "os_adjust os = adjust_left"
  shows "fold (\<lambda>p os.
             (let os = PrintCell os (to_string (id_p p));
                  os = PrintCell os (to_string (arrival_time p));
                  os = PrintCell os (to_string (burst_time p));
                  os = PrintCell os (to_string (completion_time p));
                  os = PrintCell os (to_string (turn_around_time p));
                  os = PrintCell os (to_string (waiting_time p))
              in insert_string os [newline])) rows os
         = os\<lparr>os_text := os_text os @ concat (map (\<lambda>p. table_line (os_fill os) (table_row p)) rows)\<rparr>"
  using assms
proof (induction rows arbitrary: os)
  case Nil
  show ?case by simp
next
  case (Cons p rows)
  let ?os = "os\<lparr>os_text := os_text os @ table_line (os_fill os) (table_row p),
              os_adjust := adjust_left\<rparr>"
  have "os_width ?os = 0" "os_adjust ?os = adjust_left" using Cons.prems by simp_all
  moreover have "os\<lparr>os_adjust := adjust_left\<rparr> = os"
    using Cons.prems(2) by (cases os) simp
  ultimately show ?case
    using Cons.IH[of ?os] print_row[OF Cons.prems(1), of p] by simp
qed

lemma operator_ltlt_stream:
  "fst (operator_ltlt std_sort os res) =
     os\<lparr>os_text := os_text os @ concat (map (table_line (os_fill os))
                       (table_header # map table_row (std_sort CompareAT res))),
        os_width := 0, os_adjust := adjust_left\<rparr>"
proof -
  let ?h = "endl (PrintCell (PrintCell (PrintCell (PrintCell (PrintCell (PrintCell os
      ''Process ID'') ''Arrival Time'') ''Burst Time'') ''Completion Time'')
      ''Turnaround Time'') ''Waiting Time'')"
  have h: "?h = os\<lparr>os_text := os_text os @ table_line (os_fill os) table_header,
                   os_width := 0, os_adjust := adjust_left\<rparr>"
    by (simp add: PrintCell_eq endl_def table_line_def table_header_def)
  have "os_width ?h = 0" "os_adjust ?h = adjust_left" by (simp_all add: h)
  note print_rows[OF this, of "std_sort CompareAT res"]
  then show ?thesis
    unfolding operator_ltlt_def Let_def by (simp add: h comp_def)
qed

lemma std_sort_post_sorted:
  assumes "std_sort_post CompareAT xs ys"
  shows "sorted (map arrival_time ys)" and "length ys = length xs"
proof -
  from assms have "sorted_wrt (\<lambda>a b. \<not> arrival_time b < arrival_time a) ys"
    by (simp add: std_sort_post_def CompareAT_def)
  then show "sorted (map arrival_time ys)"
    by (simp add: sorted_wrt_map not_less)
  from assms have "mset ys = mset xs" by (simp add: std_sort_post_def)
  then show "length ys = length xs" by (rule mset_eq_length)
qed

lemma std_sort_post_unique:
  assumes ys: "std_sort_post CompareAT xs ys" and zs: "std_sort_post CompareAT xs' zs"
    and eq: "mset xs = mset xs'" and d: "distinct (map arrival_time xs)"
  shows "ys = zs"
proof -
  from ys zs eq have m: "mset ys = mset zs" "mset ys = mset xs"
    by (simp_all add: std_sort_post_def)
  then have mm: "mset (map arrival_time ys) = mset (map arrival_time zs)"
    "mset (map arrival_time ys) = mset (map arrival_time xs)" by simp_all
  from mm(2) d have dy: "distinct (map arrival_time ys)"
    by (metis mset_eq_imp_distinct_iff)
  with mm(1) have dz: "distinct (map arrival_time zs)"
    by (metis mset_eq_imp_distinct_iff)
  from mm(1) have "set (map arrival_time ys) = set (map arrival_time zs)"
    by (rule mset_eq_setD)
  with std_sort_post_sorted(1)[OF ys] std_sort_post_sorted(1)[OF zs] dy dz
  have keys: "map arrival_time ys = map arrival_time zs"
    by (intro sorted_distinct_set_unique)
  from m(1) have "set ys = set zs" by (rule mset_eq_setD)
  with dy have "inj_on arrival_time (set ys \<union> set zs)" by (simp add: distinct_map)
  with keys show ?thesis by (simp add: inj_on_map_eq_map)
qed

section \<open>The reference scenario\<close>

text \<open>
  C1. On the five processes of the self-test and a time slice of 3, \<^verbatim>\<open>RRExecute\<close>
  returns one result per process with completion time 80 for id 0, 14 for id 1, 100 for
  id 2, 82 for id 3 and 166 for id 4, together with the turnaround and waiting times
  derived from them; the vector lists them in the order in which the processes finish.
  The assertion of the self-test holds, whatever \<^verbatim>\<open>std::sort\<close> returns for the two
  vectors within what the standard promises.
\<close>

theorem RRExecute_reference_scenario:
  "RRExecute Test_processes kTimeSlice =
     Some (Inr
       [\<lparr>id_p = 1, arrival_time = 9, burst_time = 2,
          completion_time = 14, turn_around_time = 5, waiting_time = 3\<rparr>,
        \<lparr>id_p = 0, arrival_time = 70, burst_time = 3,
          completion_time = 80, turn_around_time = 10, waiting_time = 7\<rparr>,
        \<lparr>id_p = 3, arrival_time = 5, burst_time = 29,
          completion_time = 82, turn_around_time = 77, waiting_time = 48\<rparr>,
        \<lparr>id_p = 2, arrival_time = 3, burst_time = 39,
          completion_time = 100, turn_around_time = 97, waiting_time = 58\<rparr>,
        \<lparr>id_p = 4, arrival_time = 30, burst_time = 90,
          completion_time = 166, turn_around_time = 136, waiting_time = 46\<rparr>])
   \<and> (std_sort_post CompareAT
         [\<lparr>id_p = 1, arrival_time = 9, burst_time = 2,
            completion_time = 14, turn_around_time = 5, waiting_time = 3\<rparr>,
          \<lparr>id_p = 0, arrival_time = 70, burst_time = 3,
            completion_time = 80, turn_around_time = 10, waiting_time = 7\<rparr>,
          \<lparr>id_p = 3, arrival_time = 5, burst_time = 29,
            completion_time = 82, turn_around_time = 77, waiting_time = 48\<rparr>,
          \<lparr>id_p = 2, arrival_time = 3, burst_time = 39,
            completion_time = 100, turn_around_time = 97, waiting_time = 58\<rparr>,
          \<lparr>id_p = 4, arrival_time = 30, burst_time = 90,
            completion_time = 166, turn_around_time = 136, waiting_time = 46\<rparr>]
         (std_sort CompareAT
           [\<lparr>id_p = 1, arrival_time = 9, burst_time = 2,
              completion_time = 14, turn_around_time = 5, waiting_time = 3\<rparr>,
            \<lparr>id_p = 0, arrival_time = 70, burst_time = 3,
              completion_time = 80, turn_around_time = 10, waiting_time = 7\<rparr>,
            \<lparr>id_p = 3, arrival_time = 5, burst_time = 29,
              completion_time = 82, turn_around_time = 77, waiting_time = 48\<rparr>,
            \<lparr>id_p = 2, arrival_time = 3, burst_time = 39,
              completion_time = 100, turn_around_time = 97, waiting_time = 58\<rparr>,
            \<lparr>id_p = 4, arrival_time = 30, burst_time = 90,
              completion_time = 166, turn_around_time = 136, waiting_time = 46\<rparr>])
       \<and> std_sort_post CompareAT
             (map2 mk_ProcessResult Test_processes correct_completion_times)
             (std_sort CompareAT (map2 mk_ProcessResult Test_processes correct_completion_times))
       \<longrightarrow> Test_assertion std_sort = Some True)"
proof -
  let ?R = "[\<lparr>id_p = 1, arrival_time = 9, burst_time = 2,
          completion_time = 14, turn_around_time = 5, waiting_time = 3\<rparr>,
        \<lparr>id_p = 0, arrival_time = 70, burst_time = 3,
          completion_time = 80, turn_around_time = 10, waiting_time = 7\<rparr>,
        \<lparr>id_p = 3, arrival_time = 5, burst_time = 29,
          completion_time = 82, turn_around_time = 77, waiting_time = 48\<rparr>,
        \<lparr>id_p = 2, arrival_time = 3, burst_time = 39,
          completion_time = 100, turn_around_time = 97, waiting_time = 58\<rparr>,
        \<lparr>id_p = 4, arrival_time = 30, burst_time = 90,
          completion_time = 166, turn_around_time = 136, waiting_time = 46\<rparr>]"
  let ?C = "map2 mk_ProcessResult Test_processes correct_completion_times"
  have run: "RRExecute Test_processes kTimeSlice = Some (Inr ?R)"
    by (simp add: Test_processes_def kTimeSlice_def RRExecute_def rr_init_def rr_loop.simps
        rr_body_def CompareAT_def mk_ProcessResult_def Let_def)
  have same: "mset ?R = mset ?C"
    by (simp add: Test_processes_def correct_completion_times_def mk_ProcessResult_def)
  have keys: "distinct (map arrival_time ?R)" by simp
  have "Test_assertion std_sort = Some True"
    if "std_sort_post CompareAT ?R (std_sort CompareAT ?R)"
      and "std_sort_post CompareAT ?C (std_sort CompareAT ?C)"
  proof -
    from that same keys have "std_sort CompareAT ?R = std_sort CompareAT ?C"
      by (rule std_sort_post_unique)
    then show ?thesis unfolding Test_assertion_def run by simp
  qed
  with run show ?thesis by blast
qed

text \<open>
  With the sort by insertion, which meets the promise on both vectors, the assertion
  holds.
\<close>

theorem RRExecute_reference_scenario_witness:
  "std_sort_post CompareAT
         [\<lparr>id_p = 1, arrival_time = 9, burst_time = 2,
            completion_time = 14, turn_around_time = 5, waiting_time = 3\<rparr>,
          \<lparr>id_p = 0, arrival_time = 70, burst_time = 3,
            completion_time = 80, turn_around_time = 10, waiting_time = 7\<rparr>,
          \<lparr>id_p = 3, arrival_time = 5, burst_time = 29,
            completion_time = 82, turn_around_time = 77, waiting_time = 48\<rparr>,
          \<lparr>id_p = 2, arrival_time = 3, burst_time = 39,
            completion_time = 100, turn_around_time = 97, waiting_time = 58\<rparr>,
          \<lparr>id_p = 4, arrival_time = 30, burst_time = 90,
            completion_time = 166, turn_around_time = 136, waiting_time = 46\<rparr>]
         (insertion_sort CompareAT
           [\<lparr>id_p = 1, arrival_time = 9, burst_time = 2,
              completion_time = 14, turn_around_time = 5, waiting_time = 3\<rparr>,
            \<lparr>id_p = 0, arrival_time = 70, burst_time = 3,
              completion_time = 80, turn_around_time = 10, waiting_time = 7\<rparr>,
            \<lparr>id_p = 3, arrival_time = 5, burst_time = 29,
              completion_time = 82, turn_around_time = 77, waiting_time = 48\<rparr>,
            \<lparr>id_p = 2, arrival_time = 3, burst_time = 39,
              completion_time = 100, turn_around_time = 97, waiting_time = 58\<rparr>,
            \<lparr>id_p = 4, arrival_time = 30, burst_time = 90,
              completion_time = 166, turn_around_time = 136, waiting_time = 46\<rparr>])
   \<and> std_sort_post CompareAT
         (map2 mk_ProcessResult Test_processes correct_completion_times)
         (insertion_sort CompareAT (map2 mk_ProcessResult Test_processes correct_completion_times))
   \<and> Test_assertion insertion_sort = Some True"
proof -
  let ?R = "[\<lparr>id_p = 1, arrival_time = 9, burst_time = 2,
          completion_time = 14, turn_around_time = 5, waiting_time = 3\<rparr>,
        \<lparr>id_p = 0, arrival_time = 70, burst_time = 3,
          completion_time = 80, turn_around_time = 10, waiting_time = 7\<rparr>,
        \<lparr>id_p = 3, arrival_time = 5, burst_time = 29,
          completion_time = 82, turn_around_time = 77, waiting_time = 48\<rparr>,
        \<lparr>id_p = 2, arrival_time = 3, burst_time = 39,
          completion_time = 100, turn_around_time = 97, waiting_time = 58\<rparr>,
        \<lparr>id_p = 4, arrival_time = 30, burst_time = 90,
          completion_time = 166, turn_around_time = 136, waiting_time = 46\<rparr>]"
  let ?C = "map2 mk_ProcessResult Test_processes correct_completion_times"
  have a: "std_sort_post CompareAT ?R (insertion_sort CompareAT ?R)"
    by (simp add: std_sort_post_def insertion_sort_def CompareAT_def)
  have b: "std_sort_post CompareAT ?C (insertion_sort CompareAT ?C)"
    by (simp add: std_sort_post_def insertion_sort_def CompareAT_def Test_processes_def
        correct_completion_times_def mk_ProcessResult_def)
  from RRExecute_reference_scenario[of insertion_sort] a b show ?thesis by blast
qed

section \<open>Arrivals at the end of a quantum\<close>

text \<open>
  C2. On an input that satisfies the preconditions, let a pass of the loop run the
  process \<open>p\<close> with \<open>left\<close> burst time left, and let the quantum end exactly at the
  arrival time of a process \<open>q\<close> that has not been admitted yet. If \<open>p\<close> still has
  burst time left after the quantum, then the queue after the pass is the queue before
  it, followed by the new arrivals, \<open>q\<close> among them, followed by \<open>p\<close> with its remaining
  burst time as the last element: the new arrivals are scheduled ahead of the process
  that was just run.
\<close>

theorem arrivals_before_reenqueue:
  assumes "preconditions ps ts"
    and "q \<in> set ps" and "id_p q \<notin> arrived_processes s"
    and "arrival_time q = time_elapsed s + quantum ts left"
    and "0 < left - quantum ts left"
  shows "\<exists>new1 new2. schedule (rr_body ps ts (p, left) s) =
           schedule s @ new1 @ (q, burst_time q) # new2 @ [(p, left - quantum ts left)]"
proof -
  let ?t = "time_elapsed s + quantum ts left"
  from assms(1) have "distinct (map id_p ps)" by (simp add: preconditions_def)
  then have "arrivals ps (arrived_processes s) ?t
      = filter (\<lambda>p. arrival_time p \<le> ?t \<and> id_p p \<notin> arrived_processes s) ps"
    by (rule arrivals_distinct_ids)
  with assms(2,3,4) have "q \<in> set (arrivals ps (arrived_processes s) ?t)" by simp
  then obtain xs ys where "arrivals ps (arrived_processes s) ?t = xs @ q # ys"
    by (auto simp: in_set_conv_decomp)
  with assms(5) have "schedule (rr_body ps ts (p, left) s) =
      schedule s @ map (\<lambda>q. (q, burst_time q)) xs @ (q, burst_time q)
        # map (\<lambda>q. (q, burst_time q)) ys @ [(p, left - quantum ts left)]"
    by (simp add: rr_body_schedule)
  then show ?thesis by blast
qed

text \<open>
  The scenario of the specification: process 0 is running when processes 1 and 2
  arrive at the tick at which its first quantum ends; both are queued ahead of it.
\<close>

theorem arrivals_before_reenqueue_witness:
  "preconditions tie_processes 3 \<and>
   schedule (rr_init tie_processes 0) = [(\<lparr>id_p = 0, arrival_time = 0, burst_time = 5\<rparr>, 5)] \<and>
   quantum 3 5 = 3 \<and>
   (\<exists>new1 new2.
      schedule (rr_body tie_processes 3 (\<lparr>id_p = 0, arrival_time = 0, burst_time = 5\<rparr>, 5)
                 ((rr_init tie_processes 0)\<lparr>schedule := []\<rparr>))
      = [] @ new1 @ (\<lparr>id_p = 2, arrival_time = 3, burst_time = 1\<rparr>, 1) # new2
          @ [(\<lparr>id_p = 0, arrival_time = 0, burst_time = 5\<rparr>, 2)]) \<and>
   schedule (rr_body tie_processes 3 (\<lparr>id_p = 0, arrival_time = 0, burst_time = 5\<rparr>, 5)
               ((rr_init tie_processes 0)\<lparr>schedule := []\<rparr>))
     = [(\<lparr>id_p = 1, arrival_time = 3, burst_time = 1\<rparr>, 1),
        (\<lparr>id_p = 2, arrival_time = 3, burst_time = 1\<rparr>, 1),
        (\<lparr>id_p = 0, arrival_time = 0, burst_time = 5\<rparr>, 2)]"
proof -
  have pre: "preconditions tie_processes 3"
    by (simp add: preconditions_def tie_processes_def)
  have init: "schedule (rr_init tie_processes 0)
                = [(\<lparr>id_p = 0, arrival_time = 0, burst_time = 5\<rparr>, 5)]"
    "arrived_processes (rr_init tie_processes 0) = {0}"
    by (simp_all add: rr_init_def tie_processes_def)
  have qu: "quantum 3 5 = 3" by (simp add: quantum_def)
  have run: "schedule (rr_body tie_processes 3 (\<lparr>id_p = 0, arrival_time = 0, burst_time = 5\<rparr>, 5)
               ((rr_init tie_processes 0)\<lparr>schedule := []\<rparr>))
     = [(\<lparr>id_p = 1, arrival_time = 3, burst_time = 1\<rparr>, 1),
        (\<lparr>id_p = 2, arrival_time = 3, burst_time = 1\<rparr>, 1),
        (\<lparr>id_p = 0, arrival_time = 0, burst_time = 5\<rparr>, 2)]"
    by (simp add: rr_body_def rr_init_def tie_processes_def Let_def)
  have "\<exists>new1 new2.
      schedule (rr_body tie_processes 3 (\<lparr>id_p = 0, arrival_time = 0, burst_time = 5\<rparr>, 5)
                 ((rr_init tie_processes 0)\<lparr>schedule := []\<rparr>))
      = schedule ((rr_init tie_processes 0)\<lparr>schedule := []\<rparr>) @ new1
          @ (\<lparr>id_p = 2, arrival_time = 3, burst_time = 1\<rparr>,
             burst_time \<lparr>id_p = 2, arrival_time = 3, burst_time = 1\<rparr>) # new2
          @ [(\<lparr>id_p = 0, arrival_time = 0, burst_time = 5\<rparr>, 5 - quantum 3 5)]"
    by (rule arrivals_before_reenqueue[OF pre])
       (simp_all add: init qu tie_processes_def rr_init_def)
  with pre init qu run show ?thesis by simp
qed

section \<open>Conservation of processes\<close>

text \<open>
  C3. The claim is that \<^verbatim>\<open>RRExecute\<close> returns one result for each input process. The
  source leaves the loop as soon as the queue is empty, also when processes are still to
  arrive: with process 0 arriving at 0 and process 1 arriving at 10, each with burst time
  1, and a time slice of 3, the queue is empty at time 1 and the call returns the result
  of process 0 alone, although the input satisfies the preconditions and has two
  processes.
\<close>

theorem RRExecute_drops_late_arrival:
  "preconditions gap_processes 3 \<and>
   RRExecute gap_processes 3 =
     Some (Inr [\<lparr>id_p = 0, arrival_time = 0, burst_time = 1,
                 completion_time = 1, turn_around_time = 1, waiting_time = 0\<rparr>]) \<and>
   length gap_processes = 2"
  by (simp add: preconditions_def gap_processes_def RRExecute_def rr_init_def rr_loop.simps
      rr_body_def CompareAT_def mk_ProcessResult_def Let_def)

section \<open>Termination\<close>

text \<open>
  C4, as amended. On an input that satisfies the preconditions \<^verbatim>\<open>RRExecute\<close> returns
  a vector: the results of a state that the loop reaches and whose queue is empty. In
  every pass of the loop the work left strictly decreases, where the work left is the
  total remaining burst time in the ready queue plus the burst times of the processes
  that have not been admitted yet.
\<close>

theorem RRExecute_terminates:
  assumes "preconditions ps ts"
  shows "\<exists>m R sf. min_element ps = Some m \<and> RRExecute ps ts = Some (Inr R) \<and>
           rr_reach ps ts (rr_init ps (arrival_time m)) sf \<and> schedule sf = [] \<and> results sf = R \<and>
           (\<forall>s current rest.
              rr_reach ps ts (rr_init ps (arrival_time m)) s \<longrightarrow> schedule s = current # rest \<longrightarrow>
              work_left ps (rr_body ps ts current (s\<lparr>schedule := rest\<rparr>)) < work_left ps s)"
proof -
  from assms have ts: "1 \<le> ts" and bt: "\<forall>q \<in> set ps. 1 \<le> burst_time q"
    by (simp_all add: preconditions_def list_all_iff)
  from RRExecute_returns[OF assms] obtain m R sf where
    m: "min_element ps = Some m" and R: "RRExecute ps ts = Some (Inr R)"
    and reach: "rr_reach ps ts (rr_init ps (arrival_time m)) sf"
    and fin: "schedule sf = []" "results sf = R"
    by metis
  have "work_left ps (rr_body ps ts current (s\<lparr>schedule := rest\<rparr>)) < work_left ps s"
    if "rr_reach ps ts (rr_init ps (arrival_time m)) s" "schedule s = current # rest"
    for s current rest
  proof -
    obtain p left where c: "current = (p, left)" by (cases current)
    have "all_left_positive s"
      using that(1) rr_init_positive[OF bt] bt by (rule rr_reach_all_left_positive)
    from work_left_decreases[OF this ts] that(2) c show ?thesis by simp
  qed
  with m R reach fin show ?thesis by blast
qed

text \<open>
  The first pass of the reference scenario: the call returns, and the work left goes
  down.
\<close>

theorem RRExecute_terminates_witness:
  "preconditions Test_processes kTimeSlice \<and>
   (\<exists>R. RRExecute Test_processes kTimeSlice = Some (Inr R)) \<and>
   work_left Test_processes
     (rr_body Test_processes kTimeSlice (\<lparr>id_p = 2, arrival_time = 3, burst_time = 39\<rparr>, 39)
        ((rr_init Test_processes 3)\<lparr>schedule := []\<rparr>))
     < work_left Test_processes (rr_init Test_processes 3)"
proof -
  have pre: "preconditions Test_processes kTimeSlice"
    by (simp add: preconditions_def Test_processes_def kTimeSlice_def)
  have m: "min_element Test_processes = Some \<lparr>id_p = 2, arrival_time = 3, burst_time = 39\<rparr>"
    by (simp add: Test_processes_def CompareAT_def)
  have q: "schedule (rr_init Test_processes 3)
             = [(\<lparr>id_p = 2, arrival_time = 3, burst_time = 39\<rparr>, 39)]"
    by (simp add: Test_processes_def rr_init_def)
  from RRExecute_terminates[OF pre] m q rr_reach.start[of Test_processes kTimeSlice "rr_init Test_processes 3"] pre
  show ?thesis by fastforce
qed

text \<open>
  The claim as stated fails: in that same pass the total remaining burst time held in
  the ready queue goes up from 39 to 65, since the pass runs process 2 for 3 units and
  admits process 3 with its 29 units.
\<close>

theorem queue_total_can_grow:
  "preconditions Test_processes kTimeSlice \<and>
   min_element Test_processes = Some \<lparr>id_p = 2, arrival_time = 3, burst_time = 39\<rparr> \<and>
   schedule (rr_init Test_processes 3) = [(\<lparr>id_p = 2, arrival_time = 3, burst_time = 39\<rparr>, 39)] \<and>
   queue_left (schedule (rr_init Test_processes 3)) = 39 \<and>
   schedule (rr_body Test_processes kTimeSlice (\<lparr>id_p = 2, arrival_time = 3, burst_time = 39\<rparr>, 39)
        ((rr_init Test_processes 3)\<lparr>schedule := []\<rparr>))
     = [(\<lparr>id_p = 3, arrival_time = 5, burst_time = 29\<rparr>, 29),
        (\<lparr>id_p = 2, arrival_time = 3, burst_time = 39\<rparr>, 36)] \<and>
   queue_left (schedule (rr_body Test_processes kTimeSlice
        (\<lparr>id_p = 2, arrival_time = 3, burst_time = 39\<rparr>, 39)
        ((rr_init Test_processes 3)\<lparr>schedule := []\<rparr>))) = 65 \<and>
   \<not> queue_left (schedule (rr_body Test_processes kTimeSlice
        (\<lparr>id_p = 2, arrival_time = 3, burst_time = 39\<rparr>, 39)
        ((rr_init Test_processes 3)\<lparr>schedule := []\<rparr>)))
     < queue_left (schedule (rr_init Test_processes 3))"
  by (simp add: preconditions_def Test_processes_def kTimeSlice_def rr_init_def rr_body_def
      CompareAT_def queue_left_def Let_def)

section \<open>The lower bound on completion times\<close>

text \<open>
  C5, as amended. On an input that satisfies the preconditions and on which the clock
  cannot wrap around (the earliest arrival time plus the sum of all burst times is below
  \<open>2 ^ 32\<close>), \<^verbatim>\<open>RRExecute\<close> returns, and every result has a completion time of at least
  its arrival time plus its burst time, a turnaround time of at least its burst time,
  and a waiting time that is the completion time minus the arrival time minus the burst
  time, with no subtraction wrapping around.
\<close>

theorem completion_lower_bound:
  assumes "preconditions ps ts" and "no_overflow ps"
  shows "\<exists>R. RRExecute ps ts = Some (Inr R) \<and>
           (\<forall>r \<in> set R.
              unat (arrival_time r) + unat (burst_time r) \<le> unat (completion_time r)
            \<and> arrival_time r + burst_time r \<le> completion_time r
            \<and> burst_time r \<le> turn_around_time r
            \<and> unat (completion_time r)
                = unat (arrival_time r) + unat (burst_time r) + unat (waiting_time r))"
proof -
  from RRExecute_returns[OF assms(1)] obtain m R sf where
    m: "min_element ps = Some m" and R: "RRExecute ps ts = Some (Inr R)"
    and reach: "rr_reach ps ts (rr_init ps (arrival_time m)) sf" and res: "results sf = R"
    by metis
  from rr_reach_init_inv[OF m assms(2) reach]
  have inv: "rr_inv ps (unat (arrival_time m) + total_burst ps) sf" .
  have "unat (arrival_time r) + unat (burst_time r) \<le> unat (completion_time r)
            \<and> arrival_time r + burst_time r \<le> completion_time r
            \<and> burst_time r \<le> turn_around_time r
            \<and> unat (completion_time r)
                = unat (arrival_time r) + unat (burst_time r) + unat (waiting_time r)"
    if "r \<in> set R" for r
  proof -
    from that inv res have
      lb: "unat (arrival_time r) + unat (burst_time r) \<le> unat (completion_time r)"
      and ta: "turn_around_time r = completion_time r - arrival_time r"
      and wt: "waiting_time r = turn_around_time r - burst_time r"
      by (auto simp: rr_inv_def)
    have "unat (completion_time r) < 2 ^ 32" using unsigned_less[of "completion_time r", where ?'a = nat] by simp
    with lb have "unat (arrival_time r) + unat (burst_time r) < 2 ^ 32" by linarith
    then have sum: "unat (arrival_time r + burst_time r) = unat (arrival_time r) + unat (burst_time r)"
      using unat_add_lem[of "arrival_time r" "burst_time r"] by simp
    from lb have "arrival_time r \<le> completion_time r" by (simp add: word_le_nat_alt)
    then have uta: "unat (turn_around_time r) = unat (completion_time r) - unat (arrival_time r)"
      by (simp add: ta unat_sub)
    with lb have ble: "burst_time r \<le> turn_around_time r" by (simp add: word_le_nat_alt)
    then have "unat (waiting_time r) = unat (turn_around_time r) - unat (burst_time r)"
      by (simp add: wt unat_sub)
    with lb uta ble sum show ?thesis by (simp add: word_le_nat_alt)
  qed
  with R show ?thesis by blast
qed

text \<open>
  The reference scenario satisfies both hypotheses.
\<close>

theorem completion_lower_bound_witness:
  "preconditions Test_processes kTimeSlice \<and> no_overflow Test_processes \<and>
   (\<exists>R. RRExecute Test_processes kTimeSlice = Some (Inr R) \<and>
           list_all (\<lambda>r. arrival_time r + burst_time r \<le> completion_time r
                        \<and> burst_time r \<le> turn_around_time r) R)"
proof -
  have pre: "preconditions Test_processes kTimeSlice"
    by (simp add: preconditions_def Test_processes_def kTimeSlice_def)
  have fit: "no_overflow Test_processes"
    by (simp add: no_overflow_def Test_processes_def CompareAT_def total_burst_def)
  from completion_lower_bound[OF pre fit] pre fit show ?thesis
    by (auto simp: list_all_iff)
qed

text \<open>
  The claim as stated fails: two processes that arrive at 0 with a burst time of
  \<open>2 ^ 32 - 1\<close> each, and a time slice of \<open>2 ^ 32 - 1\<close>, satisfy the preconditions. The
  clock wraps around during the second quantum, and process 1 gets the completion time
  \<open>2 ^ 32 - 2\<close>, which is below its arrival time plus its burst time; its turnaround
  time is below its burst time.
\<close>

theorem completion_lower_bound_counterexample:
  "preconditions wrap_processes 4294967295 \<and>
   RRExecute wrap_processes 4294967295 =
     Some (Inr
       [\<lparr>id_p = 0, arrival_time = 0, burst_time = 4294967295,
          completion_time = 4294967295, turn_around_time = 4294967295, waiting_time = 0\<rparr>,
        \<lparr>id_p = 1, arrival_time = 0, burst_time = 4294967295,
          completion_time = 4294967294, turn_around_time = 4294967294,
          waiting_time = 4294967295\<rparr>]) \<and>
   (4294967294 :: uint32_t) < 0 + 4294967295"
  by (simp add: preconditions_def wrap_processes_def RRExecute_def rr_init_def rr_loop.simps
      rr_body_def CompareAT_def mk_ProcessResult_def Let_def)

section \<open>Invalid arguments\<close>

text \<open>
  C6, as amended. \<^verbatim>\<open>RRExecute\<close> checks none of its arguments and never reports
  \<open>InvalidArgument\<close>. On an empty list it dereferences the end iterator that
  \<^verbatim>\<open>std::min_element\<close> returns, which is undefined behaviour. With a time slice of 0,
  a non-empty list and burst times of at least 1, the loop never ends: the call does not
  return.
\<close>

theorem RRExecute_does_not_validate:
  "RRExecute [] ts = Some (Inl UndefinedBehaviour) \<and>
   RRExecute ps ts \<noteq> Some (Inl InvalidArgument) \<and>
   (ps \<noteq> [] \<and> list_all (\<lambda>p. 1 \<le> burst_time p) ps \<longrightarrow> RRExecute ps 0 = None)"
  using RRExecute_zero_slice[of ps] RRExecute_not_InvalidArgument[of ps ts]
  by (simp add: RRExecute_def list_all_iff)

text \<open>
  Two processes with burst time 1 and a time slice of 0.
\<close>

theorem RRExecute_does_not_validate_witness:
  "gap_processes \<noteq> [] \<and> list_all (\<lambda>p. 1 \<le> burst_time p) gap_processes \<and>
   RRExecute [] 0 = Some (Inl UndefinedBehaviour) \<and>
   RRExecute gap_processes 0 \<noteq> Some (Inl InvalidArgument) \<and>
   RRExecute gap_processes 0 = None"
proof -
  have "gap_processes \<noteq> [] \<and> list_all (\<lambda>p. 1 \<le> burst_time p) gap_processes"
    by (simp add: gap_processes_def)
  with RRExecute_does_not_validate[of 0 gap_processes] show ?thesis by simp
qed

text \<open>
  The claim as stated fails: the empty list ends in undefined behaviour, not in
  \<open>InvalidArgument\<close>, and the reference processes with a time slice of 0 make the call
  run forever.
\<close>

theorem RRExecute_rejects_nothing:
  "RRExecute [] kTimeSlice = Some (Inl UndefinedBehaviour) \<and>
   RRExecute [] kTimeSlice \<noteq> Some (Inl InvalidArgument) \<and>
   RRExecute Test_processes 0 = None \<and>
   RRExecute Test_processes 0 \<noteq> Some (Inl InvalidArgument)"
proof -
  have "RRExecute Test_processes 0 = None"
    by (rule RRExecute_zero_slice) (simp_all add: Test_processes_def)
  then show ?thesis by (simp add: RRExecute_def)
qed

section \<open>The start of the clock\<close>

text \<open>
  C7, as amended. For every non-empty list of processes with pairwise distinct ids,
  the clock starts at the smallest arrival time of the list, which \<^verbatim>\<open>std::min_element\<close>
  finds, and not at 0; \<^verbatim>\<open>CheckArriveProcess\<close> runs once before the loop, with no result
  produced yet, so that every process whose arrival time is that minimum is in the ready
  queue, with its full burst time, when the loop starts.
\<close>

theorem clock_starts_at_min_arrival:
  assumes "ps \<noteq> []" and "distinct (map id_p ps)"
  shows "\<exists>m. min_element ps = Some m \<and> m \<in> set ps \<and>
           (\<forall>p \<in> set ps. arrival_time m \<le> arrival_time p) \<and>
           RRExecute ps ts = map_option Inr (rr_loop ps ts (rr_init ps (arrival_time m))) \<and>
           time_elapsed (rr_init ps (arrival_time m)) = arrival_time m \<and>
           results (rr_init ps (arrival_time m)) = [] \<and>
           schedule (rr_init ps (arrival_time m))
             = map (\<lambda>p. (p, burst_time p)) (filter (\<lambda>p. arrival_time p = arrival_time m) ps) \<and>
           (\<forall>p \<in> set ps. arrival_time p = arrival_time m \<longrightarrow>
              (p, burst_time p) \<in> set (schedule (rr_init ps (arrival_time m))))"
proof -
  from assms(1) obtain m where m: "min_element ps = Some m" using min_element_Some by blast
  note least = min_element_least[OF m]
  have "arrivals ps {} (arrival_time m)
          = filter (\<lambda>p. arrival_time p \<le> arrival_time m \<and> id_p p \<notin> {}) ps"
    using assms(2) by (rule arrivals_distinct_ids)
  also have "\<dots> = filter (\<lambda>p. arrival_time p = arrival_time m) ps"
    using least(2) by (intro filter_cong) auto
  finally have q: "schedule (rr_init ps (arrival_time m))
      = map (\<lambda>p. (p, burst_time p)) (filter (\<lambda>p. arrival_time p = arrival_time m) ps)"
    by (simp add: rr_init_sel)
  then have all: "\<forall>p \<in> set ps. arrival_time p = arrival_time m \<longrightarrow>
              (p, burst_time p) \<in> set (schedule (rr_init ps (arrival_time m)))"
    by auto
  have "time_elapsed (rr_init ps (arrival_time m)) = arrival_time m"
    "results (rr_init ps (arrival_time m)) = []"
    by (simp_all add: rr_init_sel)
  with m least q all RRExecute_Some[OF m, of ts] show ?thesis by blast
qed

text \<open>
  In the reference scenario the clock starts at 3, with process 2 in the queue.
\<close>

theorem clock_starts_at_min_arrival_witness:
  "Test_processes \<noteq> [] \<and> distinct (map id_p Test_processes) \<and>
   min_element Test_processes = Some \<lparr>id_p = 2, arrival_time = 3, burst_time = 39\<rparr> \<and>
   RRExecute Test_processes kTimeSlice
     = map_option Inr (rr_loop Test_processes kTimeSlice (rr_init Test_processes 3)) \<and>
   time_elapsed (rr_init Test_processes 3) = 3 \<and>
   (\<lparr>id_p = 2, arrival_time = 3, burst_time = 39\<rparr>, 39)
     \<in> set (schedule (rr_init Test_processes 3))"
proof -
  have a: "Test_processes \<noteq> []" "distinct (map id_p Test_processes)"
    by (simp_all add: Test_processes_def)
  have m: "min_element Test_processes = Some \<lparr>id_p = 2, arrival_time = 3, burst_time = 39\<rparr>"
    by (simp add: Test_processes_def CompareAT_def)
  from clock_starts_at_min_arrival[OF a, where ts = kTimeSlice] m
  have "\<lparr>id_p = 2, arrival_time = 3, burst_time = 39\<rparr> \<in> set Test_processes \<and>
        RRExecute Test_processes kTimeSlice
          = map_option Inr (rr_loop Test_processes kTimeSlice (rr_init Test_processes 3)) \<and>
        time_elapsed (rr_init Test_processes 3) = 3 \<and>
        (\<forall>p \<in> set Test_processes. arrival_time p = 3 \<longrightarrow>
              (p, burst_time p) \<in> set (schedule (rr_init Test_processes 3)))"
    by auto
  then have "RRExecute Test_processes kTimeSlice
          = map_option Inr (rr_loop Test_processes kTimeSlice (rr_init Test_processes 3)) \<and>
        time_elapsed (rr_init Test_processes 3) = 3 \<and>
        (\<lparr>id_p = 2, arrival_time = 3, burst_time = 39\<rparr>,
         burst_time \<lparr>id_p = 2, arrival_time = 3, burst_time = 39\<rparr>)
          \<in> set (schedule (rr_init Test_processes 3))"
    by fastforce
  with a m show ?thesis by simp
qed

text \<open>
  The claim as stated, for every non-empty list, fails: of two list elements with the
  same id and the minimal arrival time 5, only the first is queued, since the second
  finds its id in the set of arrived ids.
\<close>

theorem duplicate_id_not_admitted:
  "twin_processes \<noteq> [] \<and>
   min_element twin_processes = Some \<lparr>id_p = 0, arrival_time = 5, burst_time = 1\<rparr> \<and>
   twin_processes ! 1 = \<lparr>id_p = 0, arrival_time = 5, burst_time = 2\<rparr> \<and>
   schedule (rr_init twin_processes 5) = [(\<lparr>id_p = 0, arrival_time = 5, burst_time = 1\<rparr>, 1)] \<and>
   (\<lparr>id_p = 0, arrival_time = 5, burst_time = 2\<rparr>, 2) \<notin> set (schedule (rr_init twin_processes 5))"
  by (simp add: twin_processes_def rr_init_def CompareAT_def)

section \<open>Waiting time zero\<close>

text \<open>
  C8, as amended. On an input that satisfies the preconditions and on which the clock
  cannot wrap around, a result has waiting time zero, or equivalently a completion time
  equal to its arrival time plus its burst time, only if its process never stood in the
  ready queue behind a process that was run: whenever a pass of the loop runs a process
  \<open>q\<close> while \<open>p\<close> is queued behind it, the result of \<open>p\<close> has a positive waiting time,
  and its completion time is above its arrival time plus its burst time.
\<close>

theorem waiting_behind_another_is_positive:
  assumes "preconditions ps ts" and "no_overflow ps"
    and "min_element ps = Some m"
    and "rr_reach ps ts (rr_init ps (arrival_time m)) s"
    and "schedule s = (q, lq) # rest" and "(p, lp) \<in> set rest"
    and "RRExecute ps ts = Some (Inr R)" and "r \<in> set R" and "id_p r = id_p p"
  shows "0 < waiting_time r \<and>
         unat (arrival_time r) + unat (burst_time r) < unat (completion_time r) \<and>
         arrival_time r + burst_time r < completion_time r"
proof -
  let ?s0 = "rr_init ps (arrival_time m)"
  let ?B = "unat (arrival_time m) + total_burst ps"
  let ?s1 = "rr_body ps ts (q, lq) (s\<lparr>schedule := rest\<rparr>)"
  let ?e = "quantum ts lq"
  from assms(1) have ts: "1 \<le> ts" and bt: "\<forall>x \<in> set ps. 1 \<le> burst_time x"
    by (simp_all add: preconditions_def list_all_iff)
  from assms(2,3) have B: "?B < 2 ^ 32" by (simp add: no_overflow_def)
  note sch = assms(5)
  have inv: "rr_inv ps ?B s" by (rule rr_reach_init_inv[OF assms(3,2,4)])
  have pos: "all_left_positive s"
    using assms(4) rr_init_positive[OF bt] bt by (rule rr_reach_all_left_positive)
  have reach1: "rr_reach ps ts ?s0 ?s1" using assms(4) sch by (rule rr_reach.pass)
  have inv1: "rr_inv ps ?B ?s1" by (rule rr_reach_init_inv[OF assms(3,2) reach1])
  have ids1: "ids_inv ?s1" using reach1 rr_init_ids by (rule rr_reach_ids)
  from pos sch have "0 < lq" by (simp add: all_left_positive_def)
  with ts have e: "0 < unat ?e" by (rule quantum_positive)
  have t1: "unat (time_elapsed ?s1) = unat (time_elapsed s) + unat ?e"
    using rr_inv_time[OF inv B sch] by (simp add: rr_body_time)
  from inv sch assms(6) have
    "unat (arrival_time p) + unat (burst_time p) \<le> unat (time_elapsed s) + unat lp"
    by (auto simp: rr_inv_def)
  with e t1 have K: "unat (arrival_time p) + unat (burst_time p) + 1
      \<le> unat (time_elapsed ?s1) + unat lp" by linarith
  have in1: "(p, lp) \<in> set (schedule ?s1)"
    using assms(6) by (simp add: rr_body_schedule)
  from ids1 have d1: "distinct (map (\<lambda>c. id_p (fst c)) (schedule ?s1) @ map id_p (results ?s1))"
    and a1: "\<forall>c \<in> set (schedule ?s1). id_p (fst c) \<in> arrived_processes ?s1"
    by (simp_all add: ids_inv_def)
  have lb1: "lb_inv p (unat (arrival_time p) + unat (burst_time p) + 1) ?s1"
    unfolding lb_inv_def
  proof (intro conjI ballI impI)
    from a1 in1 show "id_p p \<in> arrived_processes ?s1" by fastforce
  next
    fix c assume c: "c \<in> set (schedule ?s1)" and i: "id_p (fst c) = id_p p"
    from d1 have "distinct (map (\<lambda>c. id_p (fst c)) (schedule ?s1))" by simp
    from distinct_map_eq[OF this c in1] i have ceq: "c = (p, lp)" by simp
    then show "fst c = p" by simp
    from ceq K show "unat (arrival_time p) + unat (burst_time p) + 1
        \<le> unat (time_elapsed ?s1) + unat (snd c)" by simp
  next
    fix x assume x: "x \<in> set (results ?s1)" and i: "id_p x = id_p p"
    from d1 have "set (map (\<lambda>c. id_p (fst c)) (schedule ?s1)) \<inter> set (map id_p (results ?s1)) = {}"
      by simp
    moreover from in1 have "id_p p \<in> set (map (\<lambda>c. id_p (fst c)) (schedule ?s1))" by force
    moreover from x i have "id_p p \<in> set (map id_p (results ?s1))" by force
    ultimately have False by blast
    then show "arrival_time x = arrival_time p" "burst_time x = burst_time p"
      "unat (arrival_time p) + unat (burst_time p) + 1 \<le> unat (completion_time x)"
      by simp_all
  qed
  from assms(3,7) have "rr_loop ps ts ?s0 = Some R" by (auto simp: RRExecute_def)
  with rr_loop_along[OF reach1] have "rr_loop ps ts ?s1 = Some R" by simp
  from rr_loop_reach[OF this] obtain sf where
    sf: "rr_reach ps ts ?s1 sf" "results sf = R" by blast
  from rr_reach_lb[OF sf(1) lb1 inv1 B]
  have lbf: "lb_inv p (unat (arrival_time p) + unat (burst_time p) + 1) sf"
    and invf: "rr_inv ps ?B sf" by simp_all
  from lbf sf(2) assms(8,9) have eq: "arrival_time r = arrival_time p" "burst_time r = burst_time p"
    and gt: "unat (arrival_time p) + unat (burst_time p) + 1 \<le> unat (completion_time r)"
    by (auto simp: lb_inv_def)
  from invf sf(2) assms(8) have
    ta: "turn_around_time r = completion_time r - arrival_time r"
    and wt: "waiting_time r = turn_around_time r - burst_time r"
    by (auto simp: rr_inv_def)
  from gt eq have lt: "unat (arrival_time r) + unat (burst_time r) < unat (completion_time r)"
    by simp
  have "unat (completion_time r) < 2 ^ 32"
    using unsigned_less[of "completion_time r", where ?'a = nat] by simp
  with lt have "unat (arrival_time r) + unat (burst_time r) < 2 ^ 32" by linarith
  then have sum: "unat (arrival_time r + burst_time r) = unat (arrival_time r) + unat (burst_time r)"
    using unat_add_lem[of "arrival_time r" "burst_time r"] by simp
  from lt have "arrival_time r \<le> completion_time r" by (simp add: word_le_nat_alt)
  then have uta: "unat (turn_around_time r) = unat (completion_time r) - unat (arrival_time r)"
    by (simp add: ta unat_sub)
  with lt have "burst_time r \<le> turn_around_time r" by (simp add: word_le_nat_alt)
  then have "unat (waiting_time r) = unat (turn_around_time r) - unat (burst_time r)"
    by (simp add: wt unat_sub)
  with uta lt have "0 < unat (waiting_time r)" by simp
  then have "0 < waiting_time r" by (simp add: word_less_nat_alt)
  with lt sum show ?thesis by (simp add: word_less_nat_alt)
qed

text \<open>
  Process 0 of the scenario of C2 waits behind processes 1 and 2 after its first
  quantum; its waiting time is 2.
\<close>

theorem waiting_behind_another_is_positive_witness:
  "preconditions tie_processes 3 \<and> no_overflow tie_processes \<and>
   min_element tie_processes = Some \<lparr>id_p = 0, arrival_time = 0, burst_time = 5\<rparr> \<and>
   rr_reach tie_processes 3 (rr_init tie_processes 0)
     (rr_body tie_processes 3 (\<lparr>id_p = 0, arrival_time = 0, burst_time = 5\<rparr>, 5)
        ((rr_init tie_processes 0)\<lparr>schedule := []\<rparr>)) \<and>
   schedule (rr_body tie_processes 3 (\<lparr>id_p = 0, arrival_time = 0, burst_time = 5\<rparr>, 5)
               ((rr_init tie_processes 0)\<lparr>schedule := []\<rparr>))
     = (\<lparr>id_p = 1, arrival_time = 3, burst_time = 1\<rparr>, 1)
       # [(\<lparr>id_p = 2, arrival_time = 3, burst_time = 1\<rparr>, 1),
          (\<lparr>id_p = 0, arrival_time = 0, burst_time = 5\<rparr>, 2)] \<and>
   RRExecute tie_processes 3 =
     Some (Inr
       [\<lparr>id_p = 1, arrival_time = 3, burst_time = 1,
          completion_time = 4, turn_around_time = 1, waiting_time = 0\<rparr>,
        \<lparr>id_p = 2, arrival_time = 3, burst_time = 1,
          completion_time = 5, turn_around_time = 2, waiting_time = 1\<rparr>,
        \<lparr>id_p = 0, arrival_time = 0, burst_time = 5,
          completion_time = 7, turn_around_time = 7, waiting_time = 2\<rparr>]) \<and>
   0 < waiting_time \<lparr>id_p = 0, arrival_time = 0, burst_time = 5,
          completion_time = 7, turn_around_time = 7, waiting_time = 2\<rparr>"
proof -
  let ?A = "\<lparr>id_p = 0, arrival_time = 0, burst_time = 5\<rparr>"
  let ?s1 = "rr_body tie_processes 3 (?A, 5) ((rr_init tie_processes 0)\<lparr>schedule := []\<rparr>)"
  let ?R = "[\<lparr>id_p = 1, arrival_time = 3, burst_time = 1,
          completion_time = 4, turn_around_time = 1, waiting_time = 0\<rparr>,
        \<lparr>id_p = 2, arrival_time = 3, burst_time = 1,
          completion_time = 5, turn_around_time = 2, waiting_time = 1\<rparr>,
        \<lparr>id_p = 0, arrival_time = 0, burst_time = 5,
          completion_time = 7, turn_around_time = 7, waiting_time = 2\<rparr>]"
  have pre: "preconditions tie_processes 3"
    by (simp add: preconditions_def tie_processes_def)
  have fit: "no_overflow tie_processes"
    by (simp add: no_overflow_def tie_processes_def CompareAT_def total_burst_def)
  have m: "min_element tie_processes = Some ?A"
    by (simp add: tie_processes_def CompareAT_def)
  have q0: "schedule (rr_init tie_processes 0) = [(?A, 5)]"
    by (simp add: rr_init_def tie_processes_def)
  have reach: "rr_reach tie_processes 3 (rr_init tie_processes 0) ?s1"
    using rr_reach.pass[OF rr_reach.start q0] .
  from reach have reach': "rr_reach tie_processes 3 (rr_init tie_processes (arrival_time ?A)) ?s1"
    by simp
  have q1: "schedule ?s1 = (\<lparr>id_p = 1, arrival_time = 3, burst_time = 1\<rparr>, 1)
       # [(\<lparr>id_p = 2, arrival_time = 3, burst_time = 1\<rparr>, 1), (?A, 2)]"
    by (simp add: rr_body_def rr_init_def tie_processes_def Let_def)
  have run: "RRExecute tie_processes 3 = Some (Inr ?R)"
    by (simp add: tie_processes_def RRExecute_def rr_init_def rr_loop.simps
        rr_body_def CompareAT_def mk_ProcessResult_def Let_def)
  have "0 < waiting_time \<lparr>id_p = 0, arrival_time = 0, burst_time = 5,
          completion_time = 7, turn_around_time = 7, waiting_time = 2\<rparr>"
    using waiting_behind_another_is_positive[where p = ?A and lp = 2 and r =
        "\<lparr>id_p = 0, arrival_time = 0, burst_time = 5,
          completion_time = 7, turn_around_time = 7, waiting_time = 2\<rparr>",
        OF pre fit m reach' q1 _ run]
    by simp
  with pre fit m reach q1 run show ?thesis by simp
qed

text \<open>
  The claim as stated fails: a single process with burst time 5 and a time slice of 3
  is put back into the queue after its first quantum, with 2 units left, and still has
  waiting time 0 and completion time 5, its arrival time plus its burst time.
\<close>

theorem requeued_yet_zero_waiting:
  "preconditions solo_processes 3 \<and> no_overflow solo_processes \<and>
   min_element solo_processes = Some \<lparr>id_p = 0, arrival_time = 0, burst_time = 5\<rparr> \<and>
   schedule (rr_init solo_processes 0) = [(\<lparr>id_p = 0, arrival_time = 0, burst_time = 5\<rparr>, 5)] \<and>
   schedule (rr_body solo_processes 3 (\<lparr>id_p = 0, arrival_time = 0, burst_time = 5\<rparr>, 5)
               ((rr_init solo_processes 0)\<lparr>schedule := []\<rparr>))
     = [(\<lparr>id_p = 0, arrival_time = 0, burst_time = 5\<rparr>, 2)] \<and>
   RRExecute solo_processes 3 =
     Some (Inr [\<lparr>id_p = 0, arrival_time = 0, burst_time = 5,
                 completion_time = 5, turn_around_time = 5, waiting_time = 0\<rparr>])"
  by (simp add: preconditions_def no_overflow_def total_burst_def solo_processes_def RRExecute_def
      rr_init_def rr_loop.simps rr_body_def CompareAT_def mk_ProcessResult_def Let_def)

section \<open>The table\<close>

text \<open>
  C9. For every vector of results and every state of the stream, provided that
  \<^verbatim>\<open>std::sort\<close> leaves the copy of the vector as the standard promises,
  \<^verbatim>\<open>operator<<\<close> appends a table to the text of the stream: the line of the six
  headings Process ID, Arrival Time, Burst Time, Completion Time, Turnaround Time and
  Waiting Time, and then one line for each result, the lines being a rearrangement of
  the results in ascending order of arrival time, as \<^verbatim>\<open>CompareAT\<close> orders them. Every
  line has six cells and ends with a line feed; every cell is its text followed by the
  fill character of the stream (a space for \<^verbatim>\<open>std::cout\<close>) up to a width of exactly 17
  characters, so that it is left-aligned, and holds no line feed. The call always
  returns: it leaves the stream left-adjusted with width 0, and the vector of results as
  it was.
\<close>

theorem table_rendering:
  assumes "std_sort_post CompareAT res (std_sort CompareAT res)"
  shows "fst (operator_ltlt std_sort os res) =
           os\<lparr>os_text := os_text os @ concat (map (table_line (os_fill os))
                             (table_header # map table_row (std_sort CompareAT res))),
              os_width := 0, os_adjust := adjust_left\<rparr>
   \<and> snd (operator_ltlt std_sort os res) = res
   \<and> length (map table_row (std_sort CompareAT res)) = length res
   \<and> mset (std_sort CompareAT res) = mset res
   \<and> sorted (map arrival_time (std_sort CompareAT res))
   \<and> (\<forall>cells \<in> set (table_header # map table_row (std_sort CompareAT res)).
        length cells = 6 \<and> length (table_line (os_fill os) cells) = 6 * 17 + 1 \<and>
        (\<forall>c \<in> set cells.
           length (c @ replicate (17 - length c) (os_fill os)) = 17 \<and> newline \<notin> set c))"
proof -
  let ?rows = "std_sort CompareAT res"
  have cell: "length c \<le> 17 \<and> newline \<notin> set c"
    if "c \<in> set cells" "cells \<in> set (table_header # map table_row ?rows)"
    for c cells
  proof (cases "cells = table_header")
    case True
    with that(1) show ?thesis by (auto simp: table_header_def newline_def)
  next
    case False
    with that(2) obtain p where "cells = table_row p" by auto
    with that(1) to_string_length to_string_no_newline show ?thesis
      by (auto simp: table_row_def intro: order_trans[where y = 10])
  qed
  have six: "length cells = 6"
    if "cells \<in> set (table_header # map table_row ?rows)" for cells
    using that by (auto simp: table_header_def table_row_def)
  have line: "length (table_line (os_fill os) cells) = 6 * 17 + 1"
    if "cells \<in> set (table_header # map table_row ?rows)" for cells
  proof -
    have "\<forall>c \<in> set cells. length (c @ replicate (17 - length c) (os_fill os)) = 17"
      using cell that by fastforce
    then have "length (concat (map (\<lambda>c. c @ replicate (17 - length c) (os_fill os)) cells))
        = 17 * length cells"
      by (induction cells) simp_all
    with six[OF that] show ?thesis by (simp add: table_line_def)
  qed
  have srt: "sorted (map arrival_time ?rows)"
    using assms by (rule std_sort_post_sorted(1))
  have perm: "mset ?rows = mset res"
    using assms by (simp add: std_sort_post_def)
  have len: "length (map table_row ?rows) = length res"
    using std_sort_post_sorted(2)[OF assms] by simp
  have unchanged: "snd (operator_ltlt std_sort os res) = res"
    by (simp add: operator_ltlt_def Let_def)
  have cells: "\<forall>cells \<in> set (table_header # map table_row ?rows).
        length cells = 6 \<and> length (table_line (os_fill os) cells) = 6 * 17 + 1 \<and>
        (\<forall>c \<in> set cells.
           length (c @ replicate (17 - length c) (os_fill os)) = 17 \<and> newline \<notin> set c)"
  proof (intro ballI conjI)
    fix cells assume a: "cells \<in> set (table_header # map table_row ?rows)"
    from six[OF a] show "length cells = 6" .
    from line[OF a] show "length (table_line (os_fill os) cells) = 6 * 17 + 1" .
    fix c assume c: "c \<in> set cells"
    from cell[OF c a] show "length (c @ replicate (17 - length c) (os_fill os)) = 17" by simp
    from cell[OF c a] show "newline \<notin> set c" by simp
  qed
  from operator_ltlt_stream[of std_sort os res] unchanged len perm srt cells
  show ?thesis by (intro conjI)
qed

text \<open>
  Three results in the order of their completion, the first two with the same arrival
  time 3 and the last with arrival time 0, printed to a stream in the state of
  \<^verbatim>\<open>std::cout\<close>, with the sort by insertion. The sort moves the last result to the
  front and, as the standard allows, swaps the two others.
\<close>

theorem table_rendering_witness:
  "std_sort_post CompareAT tie_results (insertion_sort CompareAT tie_results) \<and>
   insertion_sort CompareAT tie_results = [tie_results ! 2, tie_results ! 1, tie_results ! 0] \<and>
   operator_ltlt insertion_sort cout tie_results =
     (\<lparr>os_text =
         ''Process ID       Arrival Time     Burst Time       Completion Time  Turnaround Time  Waiting Time     ''
         @ [newline] @
         ''0                0                5                7                7                2                ''
         @ [newline] @
         ''2                3                1                5                2                1                ''
         @ [newline] @
         ''1                3                1                4                1                0                ''
         @ [newline],
       os_width = 0, os_adjust = adjust_left, os_fill = CHR '' ''\<rparr>,
      tie_results)"
proof -
  have rep: "replicate 16 c = [c, c, c, c, c, c, c, c, c, c, c, c, c, c, c, c]"
    "replicate 7 c = [c, c, c, c, c, c, c]" "replicate 5 c = [c, c, c, c, c]"
    "replicate 2 c = [c, c]" for c :: char
    by (simp_all add: eval_nat_numeral)
  have post: "std_sort_post CompareAT tie_results (insertion_sort CompareAT tie_results)"
    by (simp add: std_sort_post_def tie_results_def insertion_sort_def CompareAT_def)
  have srt: "insertion_sort CompareAT tie_results
               = [tie_results ! 2, tie_results ! 1, tie_results ! 0]"
    by (simp add: tie_results_def insertion_sort_def CompareAT_def)
  from table_rendering[where std_sort = insertion_sort and res = tie_results and os = cout, OF post]
  have "fst (operator_ltlt insertion_sort cout tie_results) =
           cout\<lparr>os_text := os_text cout @ concat (map (table_line (os_fill cout))
                             (table_header # map table_row (insertion_sort CompareAT tie_results))),
              os_width := 0, os_adjust := adjust_left\<rparr>"
    and "snd (operator_ltlt insertion_sort cout tie_results) = tie_results"
    by simp_all
  then have "operator_ltlt insertion_sort cout tie_results =
     (cout\<lparr>os_text := os_text cout @ concat (map (table_line (os_fill cout))
                             (table_header # map table_row (insertion_sort CompareAT tie_results))),
              os_width := 0, os_adjust := adjust_left\<rparr>, tie_results)"
    by (simp add: prod_eq_iff)
  also have "\<dots> = (\<lparr>os_text =
         ''Process ID       Arrival Time     Burst Time       Completion Time  Turnaround Time  Waiting Time     ''
         @ [newline] @
         ''0                0                5                7                7                2                ''
         @ [newline] @
         ''2                3                1                5                2                1                ''
         @ [newline] @
         ''1                3                1                4                1                0                ''
         @ [newline],
       os_width = 0, os_adjust = adjust_left, os_fill = CHR '' ''\<rparr>,
      tie_results)"
    unfolding srt
    by (simp add: cout_def tie_results_def table_line_def table_header_def table_row_def
        to_string_def decimal.simps digit_def rep)
  finally show ?thesis using post srt by simp
qed

section \<open>The order of the results\<close>

text \<open>
  C10, as amended. On an input that satisfies the preconditions and on which the clock
  cannot wrap around, \<^verbatim>\<open>RRExecute\<close> returns its results in the order of nondecreasing
  completion time.
\<close>

theorem results_in_completion_order:
  assumes "preconditions ps ts" and "no_overflow ps"
  shows "\<exists>R. RRExecute ps ts = Some (Inr R) \<and> sorted (map completion_time R)"
proof -
  from RRExecute_returns[OF assms(1)] obtain m R sf where
    m: "min_element ps = Some m" and R: "RRExecute ps ts = Some (Inr R)"
    and reach: "rr_reach ps ts (rr_init ps (arrival_time m)) sf" and res: "results sf = R"
    by metis
  from rr_reach_init_inv[OF m assms(2) reach] res
  have "sorted (map completion_time R)" by (auto simp: rr_inv_def)
  with R show ?thesis by blast
qed

text \<open>
  The reference scenario.
\<close>

theorem results_in_completion_order_witness:
  "preconditions Test_processes kTimeSlice \<and> no_overflow Test_processes \<and>
   (\<exists>R. RRExecute Test_processes kTimeSlice = Some (Inr R) \<and> sorted (map completion_time R))"
proof -
  have pre: "preconditions Test_processes kTimeSlice"
    by (simp add: preconditions_def Test_processes_def kTimeSlice_def)
  have fit: "no_overflow Test_processes"
    by (simp add: no_overflow_def Test_processes_def CompareAT_def total_burst_def)
  from results_in_completion_order[OF pre fit] pre fit show ?thesis by simp
qed

text \<open>
  The claim as stated fails: two processes arrive at \<open>2 ^ 32 - 6\<close>, with burst times 3
  and 9, and the time slice is 3. The clock wraps around while process 1 runs, so that
  the first result has the completion time \<open>2 ^ 32 - 3\<close> and the second the completion
  time 6.
\<close>

theorem results_in_completion_order_counterexample:
  "preconditions late_processes 3 \<and>
   RRExecute late_processes 3 =
     Some (Inr
       [\<lparr>id_p = 0, arrival_time = 4294967290, burst_time = 3,
          completion_time = 4294967293, turn_around_time = 3, waiting_time = 0\<rparr>,
        \<lparr>id_p = 1, arrival_time = 4294967290, burst_time = 9,
          completion_time = 6, turn_around_time = 12, waiting_time = 3\<rparr>]) \<and>
   \<not> sorted [4294967293, 6 :: uint32_t]"
  by (simp add: preconditions_def late_processes_def RRExecute_def rr_init_def rr_loop.simps
      rr_body_def CompareAT_def mk_ProcessResult_def Let_def)

end
